theory Spec2Isabelle
  imports Complex_Main "HOL-Library.Multiset" "HOL-Library.AList"
begin

section \<open>Data model\<close>

text \<open>
  The tokenizer and the token classification model are external collaborators of
  \<^verbatim>\<open>run_eval_prm_trl.py\<close>.  The tokenizer is a parameter: \<open>tokenize\<close> maps a text to the
  token ids of \<^verbatim>\<open>tokenizer(text, return_tensors='pt')['input_ids']\<close>, a tensor of shape
  \<open>[1, n]\<close> that is held here as the list of its \<open>n\<close> entries, and \<open>pad_token_id\<close> is the
  attribute of that name.
\<close>

type_synonym token = int

record tokenizer =
  tokenize :: "string \<Rightarrow> token list"
  pad_token_id :: token

text \<open>A dataset item, with the three fields the program reads.\<close>

record example =
  problem :: string
  steps :: "string list"
  label :: int

text \<open>An item of \<open>res_data\<close>: the copied fields and the two fields the scoring loop adds.\<close>

record result = example +
  prediction :: int
  match :: bool

text \<open>The exceptions of Python and of the tensor library that the modelled code can raise.\<close>

datatype error = ValueError | RuntimeError | IndexError | KeyError | TypeError

definition newline :: string where
  "newline = [CHR 0x0A]"

section \<open>Encoder: the first loop of \<^verbatim>\<open>collate_fn\<close>\<close>

text \<open>
  The inner loop over \<^verbatim>\<open>i['steps']\<close>: the running sequence \<open>input_idx\<close> grows by the tokens
  of \<^verbatim>\<open>j + '\n'\<close>, and \<^verbatim>\<open>input_idx.size(-1) - 1\<close> is appended to the last list of
  \<open>score_ids\<close>.  Positions are Python integers, so the difference is taken in \<open>int\<close>.
\<close>

fun encode_steps :: "tokenizer \<Rightarrow> token list \<Rightarrow> int list \<Rightarrow> string list \<Rightarrow> token list \<times> int list" where
  "encode_steps tok input_idx score [] = (input_idx, score)"
| "encode_steps tok input_idx score (j # js) =
     (let completion = j @ newline;
          completion_idx = tokenize tok completion;
          input_idx' = input_idx @ completion_idx
      in encode_steps tok input_idx' (score @ [int (length input_idx') - 1]) js)"

text \<open>The body of the outer loop for one item \<open>i\<close> of the batch.\<close>

definition encode :: "tokenizer \<Rightarrow> string \<Rightarrow> example \<Rightarrow> token list \<times> int list" where
  "encode tok separator i =
     (let text = problem i @ separator;
          input_idx = tokenize tok text
      in encode_steps tok input_idx [] (steps i))"

section \<open>Batch packer: the second half of \<^verbatim>\<open>collate_fn\<close>\<close>

text \<open>
  \<^verbatim>\<open>input_idx.squeeze()\<close> removes every dimension of size one.  A \<open>[1, n]\<close> tensor becomes
  one-dimensional, except for \<open>n = 1\<close>, where the result is a zero-dimensional scalar.
\<close>

datatype tensor = Scalar token | Vector "token list"

definition squeeze :: "token list \<Rightarrow> tensor" where
  "squeeze input_idx = (case input_idx of [x] \<Rightarrow> Scalar x | _ \<Rightarrow> Vector input_idx)"

text \<open>\<^verbatim>\<open>torch.cat\<close> of two tensors; it refuses a zero-dimensional argument.\<close>

fun cat :: "tensor \<Rightarrow> tensor \<Rightarrow> error + token list" where
  "cat (Vector a) (Vector b) = Inr (a @ b)"
| "cat _ _ = Inl RuntimeError"

text \<open>The padding loop \<^verbatim>\<open>for i, input_idx in enumerate(input_ids)\<close>.\<close>

fun pad_rows :: "token \<Rightarrow> nat \<Rightarrow> token list list \<Rightarrow> error + token list list" where
  "pad_rows pad max_len [] = Inr []"
| "pad_rows pad max_len (input_idx # rest) =
     (case cat (squeeze input_idx) (Vector (replicate (max_len - length input_idx) pad)) of
        Inl e \<Rightarrow> Inl e
      | Inr row \<Rightarrow>
          (case pad_rows pad max_len rest of
             Inl e \<Rightarrow> Inl e
           | Inr rows \<Rightarrow> Inr (row # rows)))"

record packed =
  input_ids :: "token list list"
  labels :: "int list"
  score_ids :: "int list list"

text \<open>
  \<^verbatim>\<open>collate_fn(batch, tokenizer, separator)\<close>.  \<^verbatim>\<open>max\<close> of an empty list raises
  \<open>ValueError\<close>.
\<close>

definition collate_fn :: "example list \<Rightarrow> tokenizer \<Rightarrow> string \<Rightarrow> error + packed" where
  "collate_fn batch tok separator =
     (let encoded = map (encode tok separator) batch;
          input_ids = map fst encoded;
          score_ids = map snd encoded;
          labels = map label batch
      in if input_ids = [] then Inl ValueError
         else
           let max_len = Max (set (map length input_ids))
           in case pad_rows (pad_token_id tok) max_len input_ids of
                Inl e \<Rightarrow> Inl e
              | Inr rows \<Rightarrow> Inr \<lparr>input_ids = rows, labels = labels, score_ids = score_ids\<rparr>)"

section \<open>Step judge: \<^verbatim>\<open>find_first_zero\<close>\<close>

text \<open>
  \<^verbatim>\<open>(tensor == 0).nonzero()\<close> lists, in increasing order, the indices of a one-dimensional
  tensor at which the comparison is true.
\<close>

definition nonzero :: "bool list \<Rightarrow> nat list" where
  "nonzero flags = filter (\<lambda>i. flags ! i) [0..<length flags]"

definition find_first_zero :: "int list \<Rightarrow> int" where
  "find_first_zero tensor =
     (let zeros = nonzero (map (\<lambda>x. x = 0) tensor)
      in if length zeros > 0 then int (hd zeros) else - 1)"

section \<open>Scorer: the loop over \<^verbatim>\<open>score_ids\<close> in \<^verbatim>\<open>main\<close>\<close>

text \<open>
  The model is a parameter: a function from the padded grid to \<open>logits\<close>, a tensor of shape
  \<open>[dim0, dim1, dim2]\<close> (batch, positions, classes), held as its three sizes and its entries.
  The scores are of any linearly ordered type, which is all that \<^verbatim>\<open>argmax\<close> needs.
\<close>

record 'a tensor3 =
  dim0 :: nat
  dim1 :: nat
  dim2 :: nat
  entry :: "nat \<Rightarrow> nat \<Rightarrow> nat \<Rightarrow> 'a"

text \<open>
  Indexing a dimension of size \<open>n\<close> with a Python integer \<open>p\<close>: negative \<open>p\<close> counts from the
  end, and \<open>p\<close> outside \<open>[-n, n)\<close> raises \<open>IndexError\<close>.
\<close>

definition py_index :: "nat \<Rightarrow> int \<Rightarrow> error + nat" where
  "py_index n p =
     (let q = (if p < 0 then int n + p else p)
      in if 0 \<le> q \<and> q < int n then Inr (nat q) else Inl IndexError)"

text \<open>Collects the values of a list of results, or the first error.\<close>

fun collect :: "(error + 'a) list \<Rightarrow> error + 'a list" where
  "collect [] = Inr []"
| "collect (x # xs) =
     (case x of
        Inl e \<Rightarrow> Inl e
      | Inr v \<Rightarrow> (case collect xs of Inl e \<Rightarrow> Inl e | Inr vs \<Rightarrow> Inr (v # vs)))"

text \<open>
  \<^verbatim>\<open>logits[i, score_id]\<close>: item \<open>i\<close> of the batch, then the positions listed in \<open>score_id\<close>;
  the result has one row of \<open>dim2\<close> class scores per listed position.
\<close>

definition index_select :: "'a tensor3 \<Rightarrow> nat \<Rightarrow> int list \<Rightarrow> error + 'a list list" where
  "index_select logits i score_id =
     (if i < dim0 logits
      then collect (map (\<lambda>p. case py_index (dim1 logits) p of
                               Inl e \<Rightarrow> Inl e
                             | Inr q \<Rightarrow> Inr (map (entry logits i q) [0..<dim2 logits]))
                     score_id)
      else Inl IndexError)"

text \<open>
  \<^verbatim>\<open>torch.argmax(t, dim=-1)\<close> on a tensor \<open>t\<close> of shape \<open>[k, num_classes]\<close>, held as its \<open>k\<close>
  rows: for every row the index of its first maximal entry.  A class dimension of size
  zero has no maximum, and the call raises whatever \<open>k\<close> is, also for \<open>k = 0\<close>.
\<close>

definition argmax_row :: "'a::linorder list \<Rightarrow> int" where
  "argmax_row v = int (hd (filter (\<lambda>k. v ! k = Max (set v)) [0..<length v]))"

definition argmax :: "nat \<Rightarrow> 'a::linorder list list \<Rightarrow> error + int list" where
  "argmax num_classes rows =
     (if num_classes = 0 then Inl IndexError else Inr (map argmax_row rows))"

text \<open>Lines 132 to 134 and the value of \<open>match\<close>, for item \<open>i\<close> of the batch.\<close>

definition score_example :: "'a::linorder tensor3 \<Rightarrow> nat \<Rightarrow> int list \<Rightarrow> int \<Rightarrow> error + int \<times> bool" where
  "score_example logits i score_id lbl =
     (case index_select logits i score_id of
        Inl e \<Rightarrow> Inl e
      | Inr rows \<Rightarrow>
          (case argmax (dim2 logits) rows of
             Inl e \<Rightarrow> Inl e
           | Inr pred \<Rightarrow>
               let prediction_step = find_first_zero pred
               in Inr (prediction_step, prediction_step = lbl)))"

definition annotate :: "example \<Rightarrow> int \<Rightarrow> bool \<Rightarrow> result" where
  "annotate e p m =
     \<lparr>problem = problem e, steps = steps e, label = label e, prediction = p, match = m\<rparr>"

text \<open>
  The loop \<^verbatim>\<open>for i, score_id in enumerate(score_ids)\<close>, from index \<open>i\<close> on.  In this
  value-level reading \<open>new_batch\<close>, the deep copy, is a list of values equal to the items of
  the raw batch; the reading with object identities follows further down.
\<close>

fun score_loop :: "'a::linorder tensor3 \<Rightarrow> int list \<Rightarrow> example list \<Rightarrow> nat \<Rightarrow> int list list \<Rightarrow> error + result list" where
  "score_loop logits lbls new_batch i [] = Inr []"
| "score_loop logits lbls new_batch i (score_id # rest) =
     (let lbl = lbls ! i
      in case score_example logits i score_id lbl of
           Inl e \<Rightarrow> Inl e
         | Inr (prediction_step, m) \<Rightarrow>
             (case score_loop logits lbls new_batch (Suc i) rest of
                Inl e \<Rightarrow> Inl e
              | Inr rs \<Rightarrow> Inr (annotate (new_batch ! i) prediction_step m # rs)))"

text \<open>
  One iteration of the loop over the data loader, for the raw batch \<^verbatim>\<open>batch_\<close> (here
  \<open>raw_batch\<close>): the items that extend \<open>res_data\<close>.
\<close>

definition score_batch :: "(token list list \<Rightarrow> 'a::linorder tensor3) \<Rightarrow> tokenizer \<Rightarrow> string \<Rightarrow> example list \<Rightarrow> error + result list" where
  "score_batch model tok separator raw_batch =
     (let new_batch = raw_batch
      in case collate_fn raw_batch tok separator of
           Inl e \<Rightarrow> Inl e
         | Inr batch \<Rightarrow>
             let logits = model (input_ids batch)
             in score_loop logits (labels batch) new_batch 0 (score_ids batch))"

section \<open>The scoring iteration with object identities\<close>

text \<open>
  For the effect of \<^verbatim>\<open>deepcopy\<close> the items are objects in a store.  An item is a Python
  dictionary, an association list in insertion order; a store is the list of the allocated
  dictionaries and an address is an index into it.  The values held under the keys are
  immutable in this model (the program never updates a \<open>steps\<close> list in place).
\<close>

datatype pyval = PyStr string | PyInt int | PyBool bool | PyStrList "string list"

type_synonym pydict = "(string \<times> pyval) list"
type_synonym addr = nat
type_synonym store = "pydict list"

definition getitem :: "pydict \<Rightarrow> string \<Rightarrow> error + pyval" where
  "getitem d k = (case map_of d k of None \<Rightarrow> Inl KeyError | Some v \<Rightarrow> Inr v)"

definition setitem :: "pydict \<Rightarrow> string \<Rightarrow> pyval \<Rightarrow> pydict" where
  "setitem d k v = AList.update k v d"

text \<open>
  What \<^verbatim>\<open>collate_fn\<close> reads of an item: \<^verbatim>\<open>i['problem']\<close>, \<^verbatim>\<open>i['steps']\<close> and
  \<^verbatim>\<open>i['label']\<close>, of the types of the dataset's schema.
\<close>

definition read_example :: "pydict \<Rightarrow> error + example" where
  "read_example d =
     (case getitem d ''problem'' of
        Inl e \<Rightarrow> Inl e
      | Inr (PyStr p) \<Rightarrow>
          (case getitem d ''steps'' of
             Inl e \<Rightarrow> Inl e
           | Inr (PyStrList s) \<Rightarrow>
               (case getitem d ''label'' of
                  Inl e \<Rightarrow> Inl e
                | Inr (PyInt l) \<Rightarrow> Inr \<lparr>problem = p, steps = s, label = l\<rparr>
                | Inr _ \<Rightarrow> Inl TypeError)
           | Inr _ \<Rightarrow> Inl TypeError)
      | Inr _ \<Rightarrow> Inl TypeError)"

text \<open>
  \<^verbatim>\<open>deepcopy\<close> of a list of items: every item is copied to a fresh address; the memo maps
  an item already copied to its copy, so that an item listed twice is copied once.
\<close>

fun deepcopy_items :: "store \<Rightarrow> (addr \<times> addr) list \<Rightarrow> addr list \<Rightarrow> store \<times> addr list" where
  "deepcopy_items h memo [] = (h, [])"
| "deepcopy_items h memo (a # rest) =
     (case map_of memo a of
        Some a' \<Rightarrow>
          (let (h', copies) = deepcopy_items h memo rest in (h', a' # copies))
      | None \<Rightarrow>
          (let a' = length h;
               (h', copies) = deepcopy_items (h @ [h ! a]) ((a, a') # memo) rest
           in (h', a' # copies)))"

definition deepcopy :: "store \<Rightarrow> addr list \<Rightarrow> store \<times> addr list" where
  "deepcopy h batch = deepcopy_items h [] batch"

text \<open>
  The loop over \<^verbatim>\<open>score_ids\<close> with its two assignments \<^verbatim>\<open>new_batch[i]['prediction'] = ...\<close>
  and \<^verbatim>\<open>new_batch[i]['match'] = ...\<close>.  The store is returned also when an exception ends
  the loop.
\<close>

fun score_loop_store :: "'a::linorder tensor3 \<Rightarrow> int list \<Rightarrow> addr list \<Rightarrow> nat \<Rightarrow> int list list \<Rightarrow> store \<Rightarrow> store \<times> (error + unit)" where
  "score_loop_store logits lbls new_batch i [] h = (h, Inr ())"
| "score_loop_store logits lbls new_batch i (score_id # rest) h =
     (let lbl = lbls ! i
      in case score_example logits i score_id lbl of
           Inl e \<Rightarrow> (h, Inl e)
         | Inr (prediction_step, m) \<Rightarrow>
             (let a = new_batch ! i;
                  h1 = h[a := setitem (h ! a) ''prediction'' (PyInt prediction_step)];
                  h2 = h1[a := setitem (h1 ! a) ''match'' (PyBool m)]
              in score_loop_store logits lbls new_batch (Suc i) rest h2))"

text \<open>
  One iteration of the loop over the data loader on the store: \<open>raw_batch\<close> lists the
  addresses of the items of \<^verbatim>\<open>batch_\<close>; the result lists the addresses of \<open>new_batch\<close>,
  which extend \<open>res_data\<close>.
\<close>

definition score_batch_store :: "(token list list \<Rightarrow> 'a::linorder tensor3) \<Rightarrow> tokenizer \<Rightarrow> string \<Rightarrow> store \<Rightarrow> addr list \<Rightarrow> store \<times> (error + addr list)" where
  "score_batch_store model tok sep h raw_batch =
     (let (h1, new_batch) = deepcopy h raw_batch
      in case collect (map (\<lambda>a. read_example (h1 ! a)) raw_batch) of
           Inl e \<Rightarrow> (h1, Inl e)
         | Inr items \<Rightarrow>
             (case collate_fn items tok sep of
                Inl e \<Rightarrow> (h1, Inl e)
              | Inr batch \<Rightarrow>
                  (let logits = model (input_ids batch);
                       (h2, r) = score_loop_store logits (labels batch) new_batch 0
                                   (score_ids batch) h1
                   in case r of Inl e \<Rightarrow> (h2, Inl e) | Inr _ \<Rightarrow> (h2, Inr new_batch))))"

section \<open>Shard coordinator: sampler, data loader and \<^verbatim>\<open>gather_objects\<close>\<close>

text \<open>The constants \<^verbatim>\<open>bs\<close> and \<^verbatim>\<open>separator\<close> of \<^verbatim>\<open>main\<close>.\<close>

definition bs :: nat where
  "bs = 24"

definition separator :: string where
  "separator = newline"

text \<open>
  What the program reads of the \<^verbatim>\<open>Accelerator\<close>.  \<open>OTHER_DISTRIBUTED\<close> stands for every
  distributed type besides \<open>NO\<close> and \<open>MULTI_GPU\<close>; the program tells only \<open>MULTI_GPU\<close> from
  the rest.
\<close>

datatype distributed_type = NO | MULTI_GPU | OTHER_DISTRIBUTED

record accelerator =
  num_processes :: nat
  process_index :: nat
  distributed_type :: distributed_type

definition is_main_process :: "accelerator \<Rightarrow> bool" where
  "is_main_process accelerator = (process_index accelerator = 0)"

text \<open>
  The indices a process iterates over.  The library's \<^verbatim>\<open>DistributedSampler\<close> is a
  parameter, called with the dataset size, \<open>num_replicas\<close> and \<open>rank\<close>; without a sampler the
  data loader runs through the whole dataset in order.
\<close>

type_synonym sampler = "nat \<Rightarrow> nat \<Rightarrow> nat \<Rightarrow> nat list"

definition shard_indices :: "sampler \<Rightarrow> accelerator \<Rightarrow> nat \<Rightarrow> nat list" where
  "shard_indices distributed_sampler accelerator n =
     (if distributed_type accelerator = MULTI_GPU
      then distributed_sampler n (num_processes accelerator) (process_index accelerator)
      else [0..<n])"

text \<open>
  The library's \<^verbatim>\<open>DistributedSampler(dataset, num_replicas, rank, shuffle=False)\<close> with its
  default \<^verbatim>\<open>drop_last=False\<close>, for a positive \<open>num_replicas\<close>: the index list \<open>0, ..., n-1\<close> is
  extended to \<open>total_size\<close>, the next multiple of \<open>num_replicas\<close>, by repeating indices from its
  start, and the process of rank \<open>rank\<close> takes \<^verbatim>\<open>indices[rank:total_size:num_replicas]\<close>.
\<close>

definition ceil_div :: "nat \<Rightarrow> nat \<Rightarrow> nat" where
  "ceil_div a b = (a + b - 1) div b"

definition slice :: "'a list \<Rightarrow> nat \<Rightarrow> nat \<Rightarrow> nat \<Rightarrow> 'a list" where
  "slice xs start stop step =
     map (\<lambda>i. xs ! i)
       (filter (\<lambda>i. start \<le> i \<and> (i - start) mod step = 0) [0..<min stop (length xs)])"

definition torch_distributed_sampler :: sampler where
  "torch_distributed_sampler n num_replicas rank =
     (let num_samples = ceil_div n num_replicas;
          total_size = num_samples * num_replicas;
          indices = [0..<n];
          padding_size = total_size - length indices;
          padded =
            (if padding_size \<le> length indices then indices @ take padding_size indices
             else indices @
                    take padding_size
                      (concat (replicate (ceil_div padding_size (length indices)) indices)))
      in slice padded rank total_size num_replicas)"

text \<open>Reading the dataset at the sampled indices; an index beyond the dataset raises.\<close>

definition fetch :: "'a list \<Rightarrow> nat list \<Rightarrow> error + 'a list" where
  "fetch dataset indices =
     collect (map (\<lambda>i. if i < length dataset then Inr (dataset ! i) else Inl IndexError) indices)"

text \<open>
  The data loader with \<^verbatim>\<open>drop_last=False\<close>: consecutive batches of \<open>batch_size\<close> items, the
  last one possibly shorter.  The program uses \<open>batch_size = bs\<close>, which is positive.
\<close>

function data_loader :: "nat \<Rightarrow> 'a list \<Rightarrow> 'a list list" where
  "data_loader batch_size xs =
     (if batch_size = 0 \<or> xs = [] then []
      else take batch_size xs # data_loader batch_size (drop batch_size xs))"
  by pat_completeness auto
termination
  by (relation "measure (\<lambda>(batch_size, xs). length xs)") auto

declare data_loader.simps [simp del]

text \<open>The loop \<^verbatim>\<open>for batch_ in dataloader\<close>, which extends \<open>res_data\<close> batch by batch.\<close>

fun res_data_loop :: "(token list list \<Rightarrow> 'a::linorder tensor3) \<Rightarrow> tokenizer \<Rightarrow> example list list \<Rightarrow> error + result list" where
  "res_data_loop model tok [] = Inr []"
| "res_data_loop model tok (raw_batch # rest) =
     (case score_batch model tok separator raw_batch of
        Inl e \<Rightarrow> Inl e
      | Inr new_batch \<Rightarrow>
          (case res_data_loop model tok rest of
             Inl e \<Rightarrow> Inl e
           | Inr res_data \<Rightarrow> Inr (new_batch @ res_data)))"

text \<open>The \<open>res_data\<close> of one process for one dataset configuration.\<close>

definition evaluate_local :: "(token list list \<Rightarrow> 'a::linorder tensor3) \<Rightarrow> tokenizer \<Rightarrow> sampler \<Rightarrow> accelerator \<Rightarrow> example list \<Rightarrow> error + result list" where
  "evaluate_local model tok distributed_sampler accelerator dataset =
     (case fetch dataset (shard_indices distributed_sampler accelerator (length dataset)) of
        Inl e \<Rightarrow> Inl e
      | Inr items \<Rightarrow> res_data_loop model tok (data_loader bs items))"

text \<open>
  \<^verbatim>\<open>gather_objects(data, accelerator)\<close>.  The collective \<^verbatim>\<open>all_gather_object\<close> fills
  \<open>all_data\<close> with the \<open>data\<close> of every process in rank order; that list is the third
  argument.  The Python \<open>None\<close> returned off the main process is \<open>None\<close> here.
\<close>

definition gather_objects :: "'a list \<Rightarrow> accelerator \<Rightarrow> 'a list list \<Rightarrow> 'a list option" where
  "gather_objects data accelerator gathered =
     (let world_size = num_processes accelerator
      in if world_size = 1 then Some data
         else
           let all_data = gathered
           in if is_main_process accelerator
              then Some (fold (\<lambda>process_data result. result @ process_data) all_data [])
              else None)"

text \<open>The fields of a result that were copied from the dataset item.\<close>

definition original :: "result \<Rightarrow> example" where
  "original r = \<lparr>problem = problem r, steps = steps r, label = label r\<rparr>"

section \<open>Metrics aggregator\<close>

text \<open>
  Values of \<^verbatim>\<open>numpy.float64\<close>: a finite value, an infinity or not-a-number.  Finite values
  are the exact reals (rounding is not modelled, and zero carries no sign); the special
  values follow IEEE 754, where dividing by zero yields an infinity or, for \<open>0/0\<close>,
  not-a-number, without raising.
\<close>

datatype npfloat = Finite real | PInf | NInf | NaN

fun fmul :: "npfloat \<Rightarrow> npfloat \<Rightarrow> npfloat" where
  "fmul (Finite x) (Finite y) = Finite (x * y)"
| "fmul NaN _ = NaN"
| "fmul _ NaN = NaN"
| "fmul (Finite x) PInf = (if x = 0 then NaN else if 0 < x then PInf else NInf)"
| "fmul (Finite x) NInf = (if x = 0 then NaN else if 0 < x then NInf else PInf)"
| "fmul PInf (Finite y) = (if y = 0 then NaN else if 0 < y then PInf else NInf)"
| "fmul NInf (Finite y) = (if y = 0 then NaN else if 0 < y then NInf else PInf)"
| "fmul PInf PInf = PInf"
| "fmul PInf NInf = NInf"
| "fmul NInf PInf = NInf"
| "fmul NInf NInf = PInf"

fun fadd :: "npfloat \<Rightarrow> npfloat \<Rightarrow> npfloat" where
  "fadd (Finite x) (Finite y) = Finite (x + y)"
| "fadd NaN _ = NaN"
| "fadd _ NaN = NaN"
| "fadd PInf NInf = NaN"
| "fadd NInf PInf = NaN"
| "fadd PInf _ = PInf"
| "fadd _ PInf = PInf"
| "fadd NInf _ = NInf"
| "fadd _ NInf = NInf"

fun fdiv :: "npfloat \<Rightarrow> npfloat \<Rightarrow> npfloat" where
  "fdiv (Finite x) (Finite y) =
     (if y = 0 then (if x = 0 then NaN else if 0 < x then PInf else NInf)
      else Finite (x / y))"
| "fdiv NaN _ = NaN"
| "fdiv _ NaN = NaN"
| "fdiv (Finite x) PInf = Finite 0"
| "fdiv (Finite x) NInf = Finite 0"
| "fdiv PInf (Finite y) = (if 0 \<le> y then PInf else NInf)"
| "fdiv NInf (Finite y) = (if 0 \<le> y then NInf else PInf)"
| "fdiv PInf PInf = NaN"
| "fdiv PInf NInf = NaN"
| "fdiv NInf PInf = NaN"
| "fdiv NInf NInf = NaN"

text \<open>\<^verbatim>\<open>np.mean\<close> of a list of booleans; the mean of an empty list is not-a-number.\<close>

definition np_mean :: "bool list \<Rightarrow> npfloat" where
  "np_mean xs =
     (if xs = [] then NaN
      else Finite (real (length (filter (\<lambda>b. b) xs)) / real (length xs)))"

text \<open>\<^verbatim>\<open>2 * acc1 * acc2 / (acc1 + acc2)\<close>, with Python's grouping.\<close>

definition f1_score :: "npfloat \<Rightarrow> npfloat \<Rightarrow> npfloat" where
  "f1_score acc1 acc2 = fdiv (fmul (fmul (Finite 2) acc1) acc2) (fadd acc1 acc2)"

text \<open>
  Rounding.  The finite values of \<^verbatim>\<open>numpy.float64\<close> are the reals \<open>m * 2 ^ e\<close> with an integer
  \<open>m\<close> of magnitude below \<open>2 ^ 53\<close> and \<open>-1074 \<le> e \<le> 971\<close>.  An arithmetic operation whose
  exact result is such a value returns it; any other finite result is rounded to a
  neighbouring value or overflows to an infinity.  What an inexact result becomes is the
  rounding mode \<open>rnd\<close>, a parameter; \<open>f1_score\<close> above is \<open>f1_float\<close> under the mode that
  keeps every result.
\<close>

definition float64 :: "real set" where
  "float64 = {x. \<exists>m e :: int. x = of_int m * 2 powi e \<and> \<bar>m\<bar> < 2 ^ 53 \<and> - 1074 \<le> e \<and> e \<le> 971}"

type_synonym rounding_mode = "real \<Rightarrow> npfloat"

definition rounded :: "rounding_mode \<Rightarrow> npfloat \<Rightarrow> npfloat" where
  "rounded rnd v =
     (case v of Finite x \<Rightarrow> (if x \<in> float64 then Finite x else rnd x) | _ \<Rightarrow> v)"

text \<open>\<^verbatim>\<open>2 * acc1 * acc2 / (acc1 + acc2)\<close> with every operation rounded.\<close>

definition f1_float :: "rounding_mode \<Rightarrow> npfloat \<Rightarrow> npfloat \<Rightarrow> npfloat" where
  "f1_float rnd acc1 acc2 =
     rounded rnd (fdiv (rounded rnd (fmul (rounded rnd (fmul (Finite 2) acc1)) acc2))
                       (rounded rnd (fadd acc1 acc2)))"

text \<open>
  What the main process emits for one configuration: the printed lines, the two result
  files (a file is held as the list of the items written, one per line) and the list
  \<open>all_f1_scores\<close>.  The formatting of numbers and of JSON is not modelled.
\<close>

datatype line =
    ErrorNumMismatch string int int
  | CorrectNumMismatch string int int
  | AccReport string npfloat npfloat npfloat

record outputs =
  stdout :: "line list"
  files :: "string \<rightharpoonup> result list"
  all_f1_scores :: "npfloat list"

text \<open>
  The body of \<^verbatim>\<open>if accelerator.is_main_process:\<close> inside the loop over the configurations,
  for the configuration \<open>config\<close> with expected counts \<open>num\<close>.
\<close>

definition aggregate :: "string \<Rightarrow> string \<Rightarrow> int \<times> int \<Rightarrow> result list \<Rightarrow> outputs \<Rightarrow> outputs" where
  "aggregate save_dir config num gathered_data out =
     (let data1 = filter (\<lambda>e. label e \<noteq> - 1) gathered_data;
          data2 = filter (\<lambda>e. label e = - 1) gathered_data;
          out1 = (if int (length data1) \<noteq> fst num
                  then out\<lparr>stdout := stdout out @
                         [ErrorNumMismatch config (int (length data1)) (fst num)]\<rparr>
                  else out);
          out2 = (if int (length data2) \<noteq> snd num
                  then out1\<lparr>stdout := stdout out1 @
                         [CorrectNumMismatch config (int (length data2)) (snd num)]\<rparr>
                  else out1);
          out3 = out2\<lparr>files := (files out2)(save_dir @ ''/'' @ config @ ''_error.jsonl'' \<mapsto> data1)\<rparr>;
          out4 = out3\<lparr>files := (files out3)(save_dir @ ''/'' @ config @ ''_correct.jsonl'' \<mapsto> data2)\<rparr>;
          acc1 = fmul (np_mean (map match data1)) (Finite 100);
          acc2 = fmul (np_mean (map match data2)) (Finite 100);
          f1 = f1_score acc1 acc2;
          out5 = out4\<lparr>stdout := stdout out4 @ [AccReport config acc1 acc2 f1]\<rparr>
      in out5\<lparr>all_f1_scores := all_f1_scores out5 @ [f1]\<rparr>)"

section \<open>Concrete collaborators for the worked examples\<close>

text \<open>One token per character, the token id being the character's code; pad id \<open>0\<close>.\<close>

definition byte_tokenizer :: tokenizer where
  "byte_tokenizer =
     \<lparr>tokenize = (\<lambda>text. map (\<lambda>c. int (of_char c)) text), pad_token_id = 0\<rparr>"

text \<open>
  A tokenizer that splits at white space and emits nothing for it: one token per remaining
  character; pad id \<open>0\<close>.
\<close>

definition nonspace_tokenizer :: tokenizer where
  "nonspace_tokenizer =
     \<lparr>tokenize = (\<lambda>text. map (\<lambda>c. int (of_char c))
                     (filter (\<lambda>c. c \<noteq> CHR 0x0A \<and> c \<noteq> CHR 0x20) text)),
      pad_token_id = 0\<rparr>"

text \<open>
  A model that looks one token back: at a position whose predecessor is the letter \<open>x\<close>
  (code 120) class \<open>0\<close> scores highest, elsewhere class \<open>1\<close>.  With the byte tokenizer
  the score position of a step is its final line feed, so a step that ends in \<open>x\<close> is
  judged incorrect.
\<close>

definition toy_model :: "token list list \<Rightarrow> int tensor3" where
  "toy_model grid =
     \<lparr>dim0 = length grid,
      dim1 = (case grid of [] \<Rightarrow> 0 | row # _ \<Rightarrow> length row),
      dim2 = 2,
      entry = (\<lambda>i p c. (if 0 < p \<and> grid ! i ! (p - 1) = 120 then [1, 0] else [0, 1]) ! c)\<rparr>"

section \<open>Properties of the encoder\<close>

lemma encode_steps_tokens:
  "fst (encode_steps tok ids sc js) = ids @ concat (map (\<lambda>s. tokenize tok (s @ newline)) js)"
  by (induction js arbitrary: ids sc) (simp_all add: Let_def)

lemma encode_steps_length:
  "length (snd (encode_steps tok ids sc js)) = length sc + length js"
  by (induction js arbitrary: ids sc) (simp_all add: Let_def)

lemma encode_steps_old:
  "k < length sc \<Longrightarrow> snd (encode_steps tok ids sc js) ! k = sc ! k"
  by (induction js arbitrary: ids sc) (simp_all add: Let_def nth_append)

lemma encode_steps_new:
  "k < length js \<Longrightarrow>
   snd (encode_steps tok ids sc js) ! (length sc + k) =
   int (length (ids @ concat (map (\<lambda>s. tokenize tok (s @ newline)) (take (Suc k) js)))) - 1"
proof (induction js arbitrary: ids sc k)
  case Nil
  then show ?case by simp
next
  case (Cons j js)
  show ?case
  proof (cases k)
    case 0
    have "snd (encode_steps tok ids sc (j # js)) ! length sc =
          (sc @ [int (length (ids @ tokenize tok (j @ newline))) - 1]) ! length sc"
      by (simp add: Let_def encode_steps_old)
    then show ?thesis using 0 by simp
  next
    case (Suc m)
    then have m: "m < length js" using Cons.prems by simp
    have "snd (encode_steps tok ids sc (j # js)) ! (length sc + k) =
          snd (encode_steps tok (ids @ tokenize tok (j @ newline))
                 (sc @ [int (length (ids @ tokenize tok (j @ newline))) - 1]) js)
            ! (length (sc @ [int (length (ids @ tokenize tok (j @ newline))) - 1]) + m)"
      using Suc by (simp add: Let_def)
    also have "\<dots> = int (length ((ids @ tokenize tok (j @ newline)) @
                      concat (map (\<lambda>s. tokenize tok (s @ newline)) (take (Suc m) js)))) - 1"
      by (rule Cons.IH [OF m])
    finally show ?thesis using Suc by simp
  qed
qed

lemma concat_take_mono:
  assumes "i < j" "j < length ps" "\<forall>p \<in> set ps. p \<noteq> []"
  shows "length (concat (take (Suc i) ps)) < length (concat (take (Suc j) ps))"
proof -
  have split: "take (Suc j) ps = take (Suc i) ps @ take (j - i) (drop (Suc i) ps)"
    using assms(1) by (simp add: take_add [symmetric])
  have si: "Suc i < length ps" using assms by simp
  obtain n where n: "j - i = Suc n"
    using assms(1) by (cases "j - i") simp_all
  have "drop (Suc i) ps = ps ! Suc i # drop (Suc (Suc i)) ps"
    using si by (simp add: Cons_nth_drop_Suc)
  then have "take (j - i) (drop (Suc i) ps) = ps ! Suc i # take n (drop (Suc (Suc i)) ps)"
    by (simp add: n)
  moreover have "ps ! Suc i \<noteq> []"
    using assms(3) si by simp
  ultimately have "0 < length (concat (take (j - i) (drop (Suc i) ps)))"
    by simp
  then show ?thesis by (simp add: split)
qed

lemma concat_take_Suc:
  "k < length ps \<Longrightarrow> concat (take (Suc k) ps) = concat (take k ps) @ ps ! k"
  by (simp add: take_Suc_conv_app_nth)

text \<open>
  C1.  The encoder tokenizes \<open>problem + separator\<close> first and then appends, step by step
  and in order, the tokens of \<open>step + "\n"\<close>.  When every step yields at least one token,
  there is one score position per step, the positions are strictly increasing, and the
  \<open>k\<close>-th position is the length of the sequence after the \<open>k\<close>-th append minus one: the
  index, in the final sequence, of the last token contributed by step \<open>k\<close>.
\<close>

theorem encode_score_positions:
  assumes "\<forall>s \<in> set (steps ex). tokenize tok (s @ newline) \<noteq> []"
  shows "fst (encode tok sep ex) =
           tokenize tok (problem ex @ sep) @ concat (map (\<lambda>s. tokenize tok (s @ newline)) (steps ex))
       \<and> length (snd (encode tok sep ex)) = length (steps ex)
       \<and> sorted_wrt (<) (snd (encode tok sep ex))
       \<and> (\<forall>k < length (steps ex).
            snd (encode tok sep ex) ! k =
              int (length (tokenize tok (problem ex @ sep) @
                     concat (take (Suc k) (map (\<lambda>s. tokenize tok (s @ newline)) (steps ex))))) - 1
          \<and> 0 \<le> snd (encode tok sep ex) ! k
          \<and> nat (snd (encode tok sep ex) ! k) < length (fst (encode tok sep ex))
          \<and> take (Suc (nat (snd (encode tok sep ex) ! k))) (fst (encode tok sep ex)) =
              tokenize tok (problem ex @ sep) @
                concat (take (Suc k) (map (\<lambda>s. tokenize tok (s @ newline)) (steps ex)))
          \<and> fst (encode tok sep ex) ! nat (snd (encode tok sep ex) ! k) =
              last (tokenize tok (steps ex ! k @ newline)))"
proof -
  define p0 where "p0 = tokenize tok (problem ex @ sep)"
  define ps where "ps = map (\<lambda>s. tokenize tok (s @ newline)) (steps ex)"
  define ids where "ids = fst (encode tok sep ex)"
  define sc where "sc = snd (encode tok sep ex)"
  have ne: "\<forall>p \<in> set ps. p \<noteq> []"
    using assms by (auto simp: ps_def)
  have len_ps: "length ps = length (steps ex)"
    by (simp add: ps_def)
  have ids: "ids = p0 @ concat ps"
    by (simp add: ids_def encode_def p0_def ps_def encode_steps_tokens)
  have len: "length sc = length (steps ex)"
    by (simp add: sc_def encode_def encode_steps_length)
  have pos: "sc ! k = int (length (p0 @ concat (take (Suc k) ps))) - 1"
    if "k < length (steps ex)" for k
    using encode_steps_new [OF that, of tok p0 "[]"]
    by (simp add: sc_def encode_def p0_def ps_def take_map)
  have incr: "sorted_wrt (<) sc"
    unfolding sorted_wrt_iff_nth_less
  proof (intro allI impI)
    fix i j assume ij: "i < j" "j < length sc"
    then have "length (concat (take (Suc i) ps)) < length (concat (take (Suc j) ps))"
      using concat_take_mono [of i j ps] ne len len_ps by simp
    then show "sc ! i < sc ! j"
      using ij len pos [of i] pos [of j] by simp
  qed
  have each: "sc ! k = int (length (p0 @ concat (take (Suc k) ps))) - 1
      \<and> 0 \<le> sc ! k \<and> nat (sc ! k) < length ids
      \<and> take (Suc (nat (sc ! k))) ids = p0 @ concat (take (Suc k) ps)
      \<and> ids ! nat (sc ! k) = last (tokenize tok (steps ex ! k @ newline))"
    if k: "k < length (steps ex)" for k
  proof -
    have kps: "k < length ps" using k len_ps by simp
    have pk: "ps ! k \<noteq> []" using ne kps by simp
    have pk_eq: "ps ! k = tokenize tok (steps ex ! k @ newline)"
      using k by (simp add: ps_def)
    define pre where "pre = p0 @ concat (take (Suc k) ps)"
    have pre_split: "pre = (p0 @ concat (take k ps)) @ ps ! k"
      by (simp add: pre_def concat_take_Suc [OF kps])
    have pre_ne: "pre \<noteq> []" using pk by (simp add: pre_split)
    have ids_split: "ids = pre @ concat (drop (Suc k) ps)"
      unfolding ids pre_def
      by (metis append.assoc append_take_drop_id concat_append)
    have sck: "sc ! k = int (length pre) - 1"
      using pos [OF k] by (simp add: pre_def)
    have nat_sck: "nat (sc ! k) = length pre - 1"
      using sck pre_ne by (cases pre) simp_all
    have suc: "Suc (nat (sc ! k)) = length pre"
      using nat_sck pre_ne by (cases pre) simp_all
    have "ids ! nat (sc ! k) = pre ! (length pre - 1)"
      using pre_ne by (simp add: ids_split nat_sck nth_append)
    also have "\<dots> = last pre"
      using pre_ne by (simp add: last_conv_nth)
    also have "\<dots> = last (ps ! k)"
      using pk by (simp add: pre_split)
    finally have tok_at: "ids ! nat (sc ! k) = last (tokenize tok (steps ex ! k @ newline))"
      by (simp add: pk_eq)
    have "0 \<le> sc ! k" using sck pre_ne by (cases pre) simp_all
    moreover have "nat (sc ! k) < length ids"
      using pre_ne by (simp add: ids_split nat_sck) (cases pre, simp_all)
    moreover have "take (Suc (nat (sc ! k))) ids = pre"
      by (simp add: suc ids_split)
    ultimately show ?thesis
      using sck tok_at by (simp add: pre_def)
  qed
  show ?thesis
    using ids len incr each
    unfolding ids_def sc_def p0_def ps_def by blast
qed

theorem encode_score_positions_witness:
  "tokenize byte_tokenizer (''a'' @ newline) \<noteq> [] \<and> tokenize byte_tokenizer (''bc'' @ newline) \<noteq> []
   \<and> snd (encode byte_tokenizer newline \<lparr>problem = ''p'', steps = [''a'', ''bc''], label = 1\<rparr>)
       = [3, 6]
   \<and> fst (encode byte_tokenizer newline \<lparr>problem = ''p'', steps = [''a'', ''bc''], label = 1\<rparr>)
       = [112, 10, 97, 10, 98, 99, 10]
   \<and> sorted_wrt (<)
        (snd (encode byte_tokenizer newline \<lparr>problem = ''p'', steps = [''a'', ''bc''], label = 1\<rparr>))"
proof -
  let ?ex = "\<lparr>problem = ''p'', steps = [''a'', ''bc''], label = 1\<rparr>"
  have h: "\<forall>s \<in> set (steps ?ex). tokenize byte_tokenizer (s @ newline) \<noteq> []"
    by (simp add: byte_tokenizer_def newline_def)
  have ev: "snd (encode byte_tokenizer newline ?ex) = [3, 6]"
           "fst (encode byte_tokenizer newline ?ex) = [112, 10, 97, 10, 98, 99, 10]"
    by (simp_all add: encode_def byte_tokenizer_def newline_def Let_def)
  show ?thesis
    using encode_score_positions [OF h, of newline] ev
    by (simp add: byte_tokenizer_def newline_def)
qed

section \<open>Properties of the step judge\<close>

lemma nonzero_sorted: "sorted (nonzero flags)"
  by (simp add: nonzero_def sorted_wrt_filter)

lemma nonzero_set: "set (nonzero flags) = {i. i < length flags \<and> flags ! i}"
  by (auto simp: nonzero_def)

lemma nonzero_hd_least:
  assumes "nonzero flags \<noteq> []"
  shows "hd (nonzero flags) < length flags \<and> flags ! hd (nonzero flags)
       \<and> (\<forall>j < hd (nonzero flags). \<not> flags ! j)"
proof -
  obtain k ks where ks: "nonzero flags = k # ks"
    using assms by (cases "nonzero flags") simp_all
  have "k \<in> set (nonzero flags)" by (simp add: ks)
  then have k: "k < length flags" "flags ! k" by (simp_all add: nonzero_set)
  have least: "\<not> flags ! j" if "j < k" for j
  proof
    assume "flags ! j"
    then have "j \<in> set (nonzero flags)"
      using that k(1) by (simp add: nonzero_set)
    moreover have "\<forall>x \<in> set (nonzero flags). k \<le> x"
      using nonzero_sorted [of flags] by (auto simp: ks)
    ultimately show False using that by auto
  qed
  show ?thesis using k least by (simp add: ks)
qed

lemma find_first_zero_none:
  "0 \<notin> set t \<Longrightarrow> find_first_zero t = - 1"
proof -
  assume "0 \<notin> set t"
  then have "\<forall>i < length t. t ! i \<noteq> 0"
    by (metis nth_mem)
  then have "set (nonzero (map (\<lambda>x. x = 0) t)) = {}"
    by (auto simp: nonzero_set)
  then show ?thesis by (simp add: find_first_zero_def)
qed

lemma find_first_zero_some:
  assumes "0 \<in> set t"
  shows "\<exists>k < length t. find_first_zero t = int k \<and> t ! k = 0 \<and> (\<forall>j < k. t ! j \<noteq> 0)"
proof -
  let ?flags = "map (\<lambda>x. x = 0) t"
  obtain i where i: "i < length t" "t ! i = 0"
    using assms by (auto simp: in_set_conv_nth)
  then have "i \<in> set (nonzero ?flags)" by (simp add: nonzero_set)
  then have ne: "nonzero ?flags \<noteq> []" by auto
  let ?k = "hd (nonzero ?flags)"
  have k: "?k < length ?flags" "?flags ! ?k" "\<forall>j < ?k. \<not> ?flags ! j"
    using nonzero_hd_least [OF ne] by blast+
  have "find_first_zero t = int ?k"
    using ne by (simp add: find_first_zero_def)
  moreover have "?k < length t" using k(1) by simp
  moreover have "t ! ?k = 0" using k(1,2) by simp
  moreover have "\<forall>j < ?k. t ! j \<noteq> 0"
  proof (intro allI impI)
    fix j assume j: "j < ?k"
    then have "\<not> ?flags ! j" using k(3) by simp
    moreover have "j < length t" using j k(1) by simp
    ultimately show "t ! j \<noteq> 0" by simp
  qed
  ultimately show ?thesis by blast
qed

text \<open>
  C3.  \<open>find_first_zero\<close> returns the index of the first entry equal to \<open>0\<close>, and \<open>-1\<close>
  when no entry is \<open>0\<close>; on \<open>[1, 1, 0, 0]\<close> it returns \<open>2\<close>.
\<close>

theorem find_first_zero_first_match:
  "(0 \<notin> set t \<longrightarrow> find_first_zero t = - 1)
 \<and> (0 \<in> set t \<longrightarrow>
      (\<exists>k < length t. find_first_zero t = int k \<and> t ! k = 0 \<and> (\<forall>j < k. t ! j \<noteq> 0)))
 \<and> find_first_zero [1, 1, 0, 0] = 2"
proof -
  have "find_first_zero [1, 1, 0, 0] = 2"
    by (simp add: find_first_zero_def nonzero_def upt_rec)
  then show ?thesis
    using find_first_zero_none [of t] find_first_zero_some [of t] by blast
qed

theorem find_first_zero_first_match_witness:
  "find_first_zero [1, 1] = - 1 \<and> find_first_zero [3, 0, 5, 0] = 1"
proof -
  have a: "find_first_zero [1, 1] = - 1"
    using find_first_zero_first_match [of "[1, 1]"] by simp
  obtain k where k: "k < 4" "find_first_zero [3, 0, 5, 0] = int k"
      "[3, 0, 5, 0 :: int] ! k = 0" "\<forall>j < k. [3, 0, 5, 0 :: int] ! j \<noteq> 0"
    using find_first_zero_first_match [of "[3, 0, 5, 0]"] by auto
  have "k = 0 \<or> k = 1 \<or> k = 2 \<or> k = 3" using k(1) by arith
  moreover have "k \<noteq> 0" using k(3) by (cases k) simp_all
  moreover have "k \<noteq> 2"
  proof
    assume "k = 2"
    then have "[3, 0, 5, 0 :: int] ! 2 = 0" using k(3) by simp
    then show False by simp
  qed
  moreover have "k \<noteq> 3"
  proof
    assume "k = 3"
    then have "(1::nat) < k" by simp
    with k(4) have "[3, 0, 5, 0 :: int] ! 1 \<noteq> 0" by blast
    then show False by simp
  qed
  ultimately have "k = 1" by blast
  then show ?thesis using a k(2) by simp
qed

section \<open>Properties of the batch packer\<close>

lemma squeeze_Vector: "squeeze x = Vector x \<longleftrightarrow> length x \<noteq> 1"
  by (cases x rule: list.exhaust [case_product list.exhaust])
     (auto simp: squeeze_def split: list.splits)

lemma squeeze_VectorI: "length x \<noteq> Suc 0 \<Longrightarrow> squeeze x = Vector x"
  using squeeze_Vector [of x] by simp

lemma squeeze_cases: "squeeze x = Vector x \<or> (\<exists>t. squeeze x = Scalar t \<and> length x = 1)"
  by (auto simp: squeeze_def split: list.splits)

lemma pad_rows_ok:
  "\<forall>x \<in> set xs. length x \<noteq> 1 \<Longrightarrow>
   pad_rows pad m xs = Inr (map (\<lambda>x. x @ replicate (m - length x) pad) xs)"
  by (induction xs) (simp_all add: squeeze_VectorI)

lemma pad_rows_Inr:
  "pad_rows pad m xs = Inr rows \<Longrightarrow>
   (\<forall>x \<in> set xs. length x \<noteq> 1) \<and> rows = map (\<lambda>x. x @ replicate (m - length x) pad) xs"
proof (induction xs arbitrary: rows)
  case Nil
  then show ?case by simp
next
  case (Cons x xs)
  from squeeze_cases [of x] show ?case
  proof
    assume v: "squeeze x = Vector x"
    then obtain rs where rs: "pad_rows pad m xs = Inr rs"
        and rows: "rows = (x @ replicate (m - length x) pad) # rs"
      using Cons.prems by (auto split: sum.splits)
    from v have "length x \<noteq> 1" by (simp add: squeeze_Vector)
    with Cons.IH [OF rs] rows show ?thesis
      by simp
  next
    assume "\<exists>t. squeeze x = Scalar t \<and> length x = 1"
    then show ?thesis using Cons.prems by auto
  qed
qed

lemma collate_fn_ok:
  assumes "batch \<noteq> []" "\<forall>ex \<in> set batch. length (fst (encode tok sep ex)) \<noteq> 1"
  shows "collate_fn batch tok sep =
    Inr \<lparr>input_ids =
           map (\<lambda>x. x @ replicate
                  (Max (set (map (\<lambda>ex. length (fst (encode tok sep ex))) batch)) - length x)
                  (pad_token_id tok))
             (map (\<lambda>ex. fst (encode tok sep ex)) batch),
         labels = map label batch,
         score_ids = map (\<lambda>ex. snd (encode tok sep ex)) batch\<rparr>"
proof -
  have "\<forall>x \<in> set (map (\<lambda>ex. fst (encode tok sep ex)) batch). length x \<noteq> 1"
    using assms(2) by simp
  from pad_rows_ok [OF this] show ?thesis
    using assms(1) by (simp add: collate_fn_def Let_def comp_def)
qed

lemma collate_fn_Inr:
  assumes "collate_fn batch tok sep = Inr out"
  shows "batch \<noteq> []" "\<forall>ex \<in> set batch. length (fst (encode tok sep ex)) \<noteq> 1"
    "out = \<lparr>input_ids =
           map (\<lambda>x. x @ replicate
                  (Max (set (map (\<lambda>ex. length (fst (encode tok sep ex))) batch)) - length x)
                  (pad_token_id tok))
             (map (\<lambda>ex. fst (encode tok sep ex)) batch),
         labels = map label batch,
         score_ids = map (\<lambda>ex. snd (encode tok sep ex)) batch\<rparr>"
proof -
  show ne: "batch \<noteq> []"
    using assms by (auto simp: collate_fn_def Let_def)
  obtain rows where rows:
    "pad_rows (pad_token_id tok) (Max (set (map (\<lambda>ex. length (fst (encode tok sep ex))) batch)))
       (map (\<lambda>ex. fst (encode tok sep ex)) batch) = Inr rows"
    and out: "out = \<lparr>input_ids = rows, labels = map label batch,
                     score_ids = map (\<lambda>ex. snd (encode tok sep ex)) batch\<rparr>"
    using assms ne by (auto simp: collate_fn_def Let_def comp_def split: sum.splits)
  from pad_rows_Inr [OF rows] show "\<forall>ex \<in> set batch. length (fst (encode tok sep ex)) \<noteq> 1"
    by simp
  from pad_rows_Inr [OF rows] out show "out = \<lparr>input_ids =
           map (\<lambda>x. x @ replicate
                  (Max (set (map (\<lambda>ex. length (fst (encode tok sep ex))) batch)) - length x)
                  (pad_token_id tok))
             (map (\<lambda>ex. fst (encode tok sep ex)) batch),
         labels = map label batch,
         score_ids = map (\<lambda>ex. snd (encode tok sep ex)) batch\<rparr>"
    by simp
qed

text \<open>
  The packer raises in exactly two situations: on an empty batch, where \<^verbatim>\<open>max\<close> has no
  argument, and on a batch with a sequence of exactly one token, which \<^verbatim>\<open>squeeze()\<close>
  turns into a scalar that \<^verbatim>\<open>torch.cat\<close> refuses.
\<close>

lemma pad_rows_Inl: "pad_rows pad m xs = Inl e \<Longrightarrow> e = RuntimeError"
proof (induction xs)
  case Nil
  then show ?case by simp
next
  case (Cons x xs)
  from squeeze_cases [of x] show ?case
  proof
    assume "squeeze x = Vector x"
    then show ?thesis using Cons by (auto split: sum.splits)
  next
    assume "\<exists>t. squeeze x = Scalar t \<and> length x = 1"
    then show ?thesis using Cons.prems by auto
  qed
qed

lemma collate_fn_Inl:
  assumes "collate_fn batch tok sep = Inl e"
  shows "(batch = [] \<and> e = ValueError)
       \<or> (\<exists>ex \<in> set batch. length (fst (encode tok sep ex)) = 1) \<and> e = RuntimeError"
proof (cases "batch = []")
  case True
  then show ?thesis using assms by (simp add: collate_fn_def)
next
  case False
  have one: "\<exists>ex \<in> set batch. length (fst (encode tok sep ex)) = 1"
    using collate_fn_ok [OF False, of tok sep] assms by auto
  have "pad_rows (pad_token_id tok)
          (Max (set (map length (map fst (map (encode tok sep) batch)))))
          (map fst (map (encode tok sep) batch)) = Inl e"
    using assms False by (auto simp: collate_fn_def Let_def split: sum.splits)
  then have "e = RuntimeError" by (rule pad_rows_Inl)
  then show ?thesis using one by blast
qed

lemma collate_fn_one_token:
  "collate_fn [\<lparr>problem = ''x'', steps = [], label = - 1\<rparr>] nonspace_tokenizer newline
     = Inl RuntimeError"
  by (simp add: collate_fn_def encode_def nonspace_tokenizer_def newline_def squeeze_def)

lemma encode_steps_pos_lt:
  "set (snd (encode_steps tok ids sc js))
     \<subseteq> set sc \<union> {p. p < int (length (fst (encode_steps tok ids sc js)))}"
proof (induction js arbitrary: ids sc)
  case Nil
  then show ?case by simp
next
  case (Cons j js)
  let ?ids = "ids @ tokenize tok (j @ newline)"
  let ?sc = "sc @ [int (length ?ids) - 1]"
  have "int (length ?ids) - 1 < int (length (fst (encode_steps tok ?ids ?sc js)))"
    by (simp add: encode_steps_tokens)
  with Cons.IH [of ?ids ?sc] show ?case
    by (auto simp: Let_def)
qed

lemma encode_pos_lt:
  "p \<in> set (snd (encode tok sep ex)) \<Longrightarrow> p < int (length (fst (encode tok sep ex)))"
  using encode_steps_pos_lt [of tok "tokenize tok (problem ex @ sep)" "[]" "steps ex"]
  by (auto simp: encode_def)

lemma encode_steps_pos_nonneg:
  "\<forall>s \<in> set js. tokenize tok (s @ newline) \<noteq> [] \<Longrightarrow>
   set (snd (encode_steps tok ids sc js)) \<subseteq> set sc \<union> {p. 0 \<le> p}"
proof (induction js arbitrary: ids sc)
  case Nil
  then show ?case by simp
next
  case (Cons j js)
  let ?ids = "ids @ tokenize tok (j @ newline)"
  let ?sc = "sc @ [int (length ?ids) - 1]"
  have "tokenize tok (j @ newline) \<noteq> []" using Cons.prems by simp
  then have "0 \<le> int (length ?ids) - 1"
    by (cases "tokenize tok (j @ newline)") simp_all
  moreover have "\<forall>s \<in> set js. tokenize tok (s @ newline) \<noteq> []"
    using Cons.prems by simp
  ultimately show ?case
    using Cons.IH [of ?ids ?sc] by (auto simp: Let_def)
qed

lemma encode_pos_nonneg:
  "\<forall>s \<in> set (steps ex). tokenize tok (s @ newline) \<noteq> [] \<Longrightarrow>
   p \<in> set (snd (encode tok sep ex)) \<Longrightarrow> 0 \<le> p"
  using encode_steps_pos_nonneg [of "steps ex" tok "tokenize tok (problem ex @ sep)" "[]"]
  by (auto simp: encode_def)

text \<open>
  What the packer does when it returns.  \<open>collate_fn\<close> returns on every non-empty batch in
  which no encoded sequence has exactly one token.  Whenever it returns, \<open>max_len\<close> is the
  maximum of the sequence lengths, every row is its sequence followed by pad tokens up to
  \<open>max_len\<close>, the labels and the score positions are those of the encoder, and every score
  position is below the length of its own sequence, hence below \<open>max_len\<close>.  If moreover
  every step tokenizes to at least one token, every score position is a valid index of the
  original sequence, so it lies left of the padding, and the packed row holds the original
  token there.
\<close>

lemma collate_fn_returns:
  "(batch \<noteq> [] \<and> (\<forall>ex \<in> set batch. length (fst (encode tok sep ex)) \<noteq> 1)
      \<longrightarrow> (\<exists>out. collate_fn batch tok sep = Inr out))
 \<and> (\<forall>out. collate_fn batch tok sep = Inr out \<longrightarrow>
      (let seqs = map (\<lambda>ex. fst (encode tok sep ex)) batch;
           max_len = Max (set (map length seqs))
       in labels out = map label batch
        \<and> score_ids out = map (\<lambda>ex. snd (encode tok sep ex)) batch
        \<and> length (input_ids out) = length batch
        \<and> (\<forall>i < length batch.
              length (seqs ! i) \<le> max_len
            \<and> input_ids out ! i =
                seqs ! i @ replicate (max_len - length (seqs ! i)) (pad_token_id tok)
            \<and> length (input_ids out ! i) = max_len
            \<and> (\<forall>p \<in> set (score_ids out ! i).
                  p < int (length (seqs ! i)) \<and> p < int max_len))
        \<and> ((\<forall>ex \<in> set batch. \<forall>s \<in> set (steps ex). tokenize tok (s @ newline) \<noteq> [])
             \<longrightarrow> (\<forall>i < length batch. \<forall>p \<in> set (score_ids out ! i).
                    0 \<le> p \<and> nat p < length (seqs ! i)
                  \<and> input_ids out ! i ! nat p = seqs ! i ! nat p))))"
proof (intro conjI allI impI)
  assume "batch \<noteq> [] \<and> (\<forall>ex \<in> set batch. length (fst (encode tok sep ex)) \<noteq> 1)"
  then show "\<exists>out. collate_fn batch tok sep = Inr out"
    using collate_fn_ok [of batch tok sep] by blast
next
  fix out
  assume ret: "collate_fn batch tok sep = Inr out"
  define seqs where "seqs = map (\<lambda>ex. fst (encode tok sep ex)) batch"
  define max_len where "max_len = Max (set (map length seqs))"
  note out = collate_fn_Inr(3) [OF ret]
  have ml: "Max (set (map (\<lambda>ex. length (fst (encode tok sep ex))) batch)) = max_len"
    by (simp add: max_len_def seqs_def comp_def)
  have lab: "labels out = map label batch"
    and sco: "score_ids out = map (\<lambda>ex. snd (encode tok sep ex)) batch"
    and inp: "input_ids out = map (\<lambda>x. x @ replicate (max_len - length x) (pad_token_id tok)) seqs"
    by (subst out, simp add: ml ml [simplified] seqs_def)+
  have le: "length (seqs ! i) \<le> max_len" if "i < length batch" for i
  proof -
    have "length (seqs ! i) \<in> set (map length seqs)"
      using that by (simp add: seqs_def)
    then show ?thesis unfolding max_len_def by (simp add: Max_ge)
  qed
  have row: "input_ids out ! i = seqs ! i @ replicate (max_len - length (seqs ! i)) (pad_token_id tok)"
    if "i < length batch" for i
    using that by (simp add: inp seqs_def)
  have lt: "p < int (length (seqs ! i))"
    if "i < length batch" "p \<in> set (score_ids out ! i)" for i p
    using that encode_pos_lt [of p tok sep "batch ! i"] by (simp add: sco seqs_def)
  have rows: "length (seqs ! i) \<le> max_len
            \<and> input_ids out ! i =
                seqs ! i @ replicate (max_len - length (seqs ! i)) (pad_token_id tok)
            \<and> length (input_ids out ! i) = max_len
            \<and> (\<forall>p \<in> set (score_ids out ! i).
                  p < int (length (seqs ! i)) \<and> p < int max_len)"
    if i: "i < length batch" for i
  proof -
    have "length (input_ids out ! i) = max_len"
      using le [OF i] by (simp add: row [OF i])
    moreover have "\<forall>p \<in> set (score_ids out ! i). p < int (length (seqs ! i)) \<and> p < int max_len"
      using lt [OF i] le [OF i] by fastforce
    ultimately show ?thesis using le [OF i] row [OF i] by blast
  qed
  have valid: "0 \<le> p \<and> nat p < length (seqs ! i) \<and> input_ids out ! i ! nat p = seqs ! i ! nat p"
    if tk: "\<forall>ex \<in> set batch. \<forall>s \<in> set (steps ex). tokenize tok (s @ newline) \<noteq> []"
      and i: "i < length batch" and p: "p \<in> set (score_ids out ! i)" for i p
  proof -
    have "batch ! i \<in> set batch" using i by simp
    then have "\<forall>s \<in> set (steps (batch ! i)). tokenize tok (s @ newline) \<noteq> []"
      using tk by blast
    moreover have "p \<in> set (snd (encode tok sep (batch ! i)))"
      using p i by (simp add: sco)
    ultimately have nn: "0 \<le> p" by (rule encode_pos_nonneg)
    then have n: "nat p < length (seqs ! i)" using lt [OF i p] by simp
    then show ?thesis using nn by (simp add: row [OF i] nth_append)
  qed
  show "let seqs = map (\<lambda>ex. fst (encode tok sep ex)) batch;
           max_len = Max (set (map length seqs))
       in labels out = map label batch
        \<and> score_ids out = map (\<lambda>ex. snd (encode tok sep ex)) batch
        \<and> length (input_ids out) = length batch
        \<and> (\<forall>i < length batch.
              length (seqs ! i) \<le> max_len
            \<and> input_ids out ! i =
                seqs ! i @ replicate (max_len - length (seqs ! i)) (pad_token_id tok)
            \<and> length (input_ids out ! i) = max_len
            \<and> (\<forall>p \<in> set (score_ids out ! i).
                  p < int (length (seqs ! i)) \<and> p < int max_len))
        \<and> ((\<forall>ex \<in> set batch. \<forall>s \<in> set (steps ex). tokenize tok (s @ newline) \<noteq> [])
             \<longrightarrow> (\<forall>i < length batch. \<forall>p \<in> set (score_ids out ! i).
                    0 \<le> p \<and> nat p < length (seqs ! i)
                  \<and> input_ids out ! i ! nat p = seqs ! i ! nat p))"
    unfolding Let_def seqs_def [symmetric] max_len_def [symmetric]
    using lab sco inp rows valid by (simp add: seqs_def)
qed

lemma collate_fn_returns_example:
  "\<exists>out. collate_fn [\<lparr>problem = ''p'', steps = [''a'', ''bc''], label = 1\<rparr>,
                       \<lparr>problem = ''q'', steps = [''d''], label = - 1\<rparr>] byte_tokenizer newline = Inr out
     \<and> labels out = [1, - 1]
     \<and> score_ids out = [[3, 6], [3]]
     \<and> input_ids out ! 0 = [112, 10, 97, 10, 98, 99, 10]
     \<and> input_ids out ! 1 = [113, 10, 100, 10, 0, 0, 0]
     \<and> input_ids out ! 1 ! nat 3 = 10"
proof -
  let ?b = "[\<lparr>problem = ''p'', steps = [''a'', ''bc''], label = 1\<rparr>,
             \<lparr>problem = ''q'', steps = [''d''], label = - 1\<rparr>]"
  have ev: "map (\<lambda>ex. fst (encode byte_tokenizer newline ex)) ?b =
              [[112, 10, 97, 10, 98, 99, 10], [113, 10, 100, 10]]"
           "map (\<lambda>ex. snd (encode byte_tokenizer newline ex)) ?b = [[3, 6], [3]]"
    by (simp_all add: encode_def byte_tokenizer_def newline_def Let_def)
  have h1: "?b \<noteq> [] \<and> (\<forall>ex \<in> set ?b. length (fst (encode byte_tokenizer newline ex)) \<noteq> 1)"
    by (simp add: encode_def byte_tokenizer_def newline_def Let_def)
  have h2: "\<forall>ex \<in> set ?b. \<forall>s \<in> set (steps ex). tokenize byte_tokenizer (s @ newline) \<noteq> []"
    by (simp add: byte_tokenizer_def newline_def)
  note pk = collate_fn_returns [of ?b byte_tokenizer newline]
  from pk h1 obtain out where out: "collate_fn ?b byte_tokenizer newline = Inr out"
    by blast
  from pk out have props:
    "labels out = map label ?b"
    "score_ids out = map (\<lambda>ex. snd (encode byte_tokenizer newline ex)) ?b"
    "\<forall>i < length ?b. input_ids out ! i =
        map (\<lambda>ex. fst (encode byte_tokenizer newline ex)) ?b ! i @
        replicate (Max (set (map length (map (\<lambda>ex. fst (encode byte_tokenizer newline ex)) ?b)))
                    - length (map (\<lambda>ex. fst (encode byte_tokenizer newline ex)) ?b ! i))
          (pad_token_id byte_tokenizer)"
    unfolding Let_def by blast+
  from pk out h2 have valid:
    "\<forall>i < length ?b. \<forall>p \<in> set (score_ids out ! i).
        input_ids out ! i ! nat p = map (\<lambda>ex. fst (encode byte_tokenizer newline ex)) ?b ! i ! nat p"
    unfolding Let_def by blast
  have r0: "input_ids out ! 0 = [112, 10, 97, 10, 98, 99, 10]"
    using props(3) [rule_format, of 0] unfolding ev by (simp add: byte_tokenizer_def)
  have r1: "input_ids out ! 1 = [113, 10, 100, 10, 0, 0, 0]"
    using props(3) [rule_format, of 1] unfolding ev by (simp add: byte_tokenizer_def numeral_3_eq_3)
  have v: "input_ids out ! 1 ! nat 3 = 10"
    using valid [rule_format, of 1 3] props(2) unfolding ev by simp
  show ?thesis
    using out props(1,2) r0 r1 v unfolding ev by simp
qed

lemma collate_fn_raises_one_token:
  assumes "ex \<in> set batch" "length (fst (encode tok sep ex)) = 1"
  shows "collate_fn batch tok sep = Inl RuntimeError"
proof (cases "collate_fn batch tok sep")
  case (Inl e)
  from collate_fn_Inl [OF Inl] assms(1) show ?thesis
    using Inl by auto
next
  case (Inr out)
  from collate_fn_Inr(2) [OF Inr] assms show ?thesis by auto
qed

text \<open>
  C2.  The claim has the packer right-pad every sequence of every batch to \<open>max_len\<close> and keep
  every score position on a real token.  The code does not do so on a batch that holds a
  sequence of exactly one token: \<^verbatim>\<open>squeeze()\<close> removes the length dimension together with
  the batch dimension, \<^verbatim>\<open>torch.cat\<close> refuses the scalar, and no sequence of the batch is
  padded.  In the first batch the second item, an empty problem with no steps, is encoded
  by the byte tokenizer as the single line feed token.  In the second batch the second
  item has a problem and one step; the tokenizer that drops white space encodes it as the
  single token of the step, with the score position \<open>0\<close> on that token.
\<close>

theorem collate_fn_one_token_raises:
  "encode byte_tokenizer newline \<lparr>problem = '''', steps = [], label = - 1\<rparr> = ([10], [])
 \<and> collate_fn [\<lparr>problem = ''ab'', steps = [''c''], label = 0\<rparr>,
               \<lparr>problem = '''', steps = [], label = - 1\<rparr>] byte_tokenizer newline
     = Inl RuntimeError
 \<and> encode nonspace_tokenizer newline \<lparr>problem = '' '', steps = [''x''], label = 0\<rparr>
     = ([120], [0])
 \<and> collate_fn [\<lparr>problem = ''ab'', steps = [''c''], label = 0\<rparr>,
               \<lparr>problem = '' '', steps = [''x''], label = 0\<rparr>] nonspace_tokenizer newline
     = Inl RuntimeError"
  by (simp add: collate_fn_def encode_def byte_tokenizer_def nonspace_tokenizer_def newline_def
        squeeze_def Let_def)

section \<open>Properties of the scorer\<close>

lemma collect_Inr:
  "collect xs = Inr vs \<Longrightarrow> length vs = length xs \<and> (\<forall>k < length xs. xs ! k = Inr (vs ! k))"
proof (induction xs arbitrary: vs)
  case Nil
  then show ?case by simp
next
  case (Cons x xs)
  then obtain v ws where x: "x = Inr v" and ws: "collect xs = Inr ws" and vs: "vs = v # ws"
    by (auto split: sum.splits)
  from Cons.IH [OF ws] show ?case
    by (auto simp: x vs nth_Cons split: nat.splits)
qed

lemma find_first_zero_range:
  "find_first_zero t = - 1 \<or> (0 \<le> find_first_zero t \<and> find_first_zero t < int (length t))"
proof (cases "0 \<in> set t")
  case True
  from find_first_zero_some [OF True] show ?thesis by auto
next
  case False
  then show ?thesis by (simp add: find_first_zero_none)
qed

lemma encode_length: "length (snd (encode tok sep ex)) = length (steps ex)"
  by (simp add: encode_def encode_steps_length)

lemma score_example_Inr:
  assumes "score_example logits i score_id lbl = Inr (p, m)"
  shows "i < dim0 logits \<and> 0 < dim2 logits \<and> m = (p = lbl)
       \<and> (\<exists>pred. length pred = length score_id \<and> p = find_first_zero pred)"
proof -
  obtain rows where rows: "index_select logits i score_id = Inr rows"
    using assms by (auto simp: score_example_def split: sum.splits)
  then obtain pred where pred: "argmax (dim2 logits) rows = Inr pred"
    and p: "p = find_first_zero pred" and m: "m = (p = lbl)"
    using assms by (auto simp: score_example_def Let_def split: sum.splits)
  have i: "i < dim0 logits"
    using rows by (auto simp: index_select_def split: if_splits)
  then have "collect (map (\<lambda>p. case py_index (dim1 logits) p of
                               Inl e \<Rightarrow> Inl e
                             | Inr q \<Rightarrow> Inr (map (entry logits i q) [0..<dim2 logits]))
                     score_id) = Inr rows"
    using rows by (simp add: index_select_def)
  then have "length rows = length score_id"
    using collect_Inr by fastforce
  moreover have c: "0 < dim2 logits" and "length pred = length rows"
    using pred by (auto simp: argmax_def split: if_splits)
  ultimately show ?thesis using i p m by auto
qed

lemma score_example_range:
  assumes "score_example logits i score_id lbl = Inr (p, m)"
  shows "p = - 1 \<or> (0 \<le> p \<and> p < int (length score_id))"
proof -
  from score_example_Inr [OF assms] obtain pred
    where "length pred = length score_id" "p = find_first_zero pred" by blast
  then show ?thesis using find_first_zero_range [of pred] by simp
qed

lemma score_example_empty:
  "i < dim0 logits \<Longrightarrow> 0 < dim2 logits \<Longrightarrow>
   score_example logits i [] lbl = Inr (- 1, (- 1 = lbl))"
  by (simp add: score_example_def index_select_def argmax_def find_first_zero_def nonzero_def
        Let_def)

text \<open>
  Without a class dimension \<^verbatim>\<open>argmax\<close> raises, also for an item with no score position.
\<close>

lemma score_example_no_classes:
  "dim2 logits = 0 \<Longrightarrow> \<exists>e. score_example logits i score_id lbl = Inl e"
  by (auto simp: score_example_def argmax_def split: sum.splits)

lemma score_loop_Inr:
  "score_loop logits lbls nb i sids = Inr rs \<Longrightarrow>
   length rs = length sids \<and>
   (\<forall>k < length sids. \<exists>p m.
      score_example logits (i + k) (sids ! k) (lbls ! (i + k)) = Inr (p, m)
      \<and> rs ! k = annotate (nb ! (i + k)) p m)"
proof (induction sids arbitrary: i rs)
  case Nil
  then show ?case by simp
next
  case (Cons sid sids)
  then obtain p m rs' where pm: "score_example logits i sid (lbls ! i) = Inr (p, m)"
    and rs': "score_loop logits lbls nb (Suc i) sids = Inr rs'"
    and rs: "rs = annotate (nb ! i) p m # rs'"
    by (auto simp: Let_def split: sum.splits prod.splits)
  from Cons.IH [OF rs'] have len: "length rs' = length sids"
    and rest: "\<forall>k < length sids. \<exists>p m.
      score_example logits (Suc i + k) (sids ! k) (lbls ! (Suc i + k)) = Inr (p, m)
      \<and> rs' ! k = annotate (nb ! (Suc i + k)) p m"
    by blast+
  have "\<exists>p m. score_example logits (i + k) ((sid # sids) ! k) (lbls ! (i + k)) = Inr (p, m)
      \<and> rs ! k = annotate (nb ! (i + k)) p m" if "k < length (sid # sids)" for k
  proof (cases k)
    case 0
    then show ?thesis using pm rs by simp
  next
    case (Suc j)
    then have "j < length sids" using that by simp
    with rest show ?thesis using Suc rs by simp
  qed
  then show ?case using len rs by simp
qed

lemma score_batch_Inr:
  assumes "score_batch model tok sep raw_batch = Inr rs"
  shows "length rs = length raw_batch \<and>
    (\<exists>out. collate_fn raw_batch tok sep = Inr out \<and>
      (\<forall>k < length raw_batch. \<exists>p m.
         score_example (model (input_ids out)) k (snd (encode tok sep (raw_batch ! k)))
           (label (raw_batch ! k)) = Inr (p, m)
         \<and> rs ! k = annotate (raw_batch ! k) p m))"
proof -
  obtain out where out: "collate_fn raw_batch tok sep = Inr out"
    and loop: "score_loop (model (input_ids out)) (labels out) raw_batch 0 (score_ids out) = Inr rs"
    using assms by (auto simp: score_batch_def Let_def split: sum.splits)
  have lab: "labels out = map label raw_batch"
    and sco: "score_ids out = map (\<lambda>ex. snd (encode tok sep ex)) raw_batch"
    by (subst collate_fn_Inr(3) [OF out], simp)+
  from score_loop_Inr [OF loop] show ?thesis
    using out by (auto simp: lab sco)
qed

lemma score_batch_prediction:
  assumes "score_batch model tok sep raw_batch = Inr rs" "k < length raw_batch"
  shows "\<exists>out p m. collate_fn raw_batch tok sep = Inr out
      \<and> score_example (model (input_ids out)) k (snd (encode tok sep (raw_batch ! k)))
           (label (raw_batch ! k)) = Inr (p, m)
      \<and> prediction (rs ! k) = p \<and> match (rs ! k) = m"
proof -
  from score_batch_Inr [OF assms(1)] obtain out where
    out: "collate_fn raw_batch tok sep = Inr out" and
    each: "\<forall>k < length raw_batch. \<exists>p m.
         score_example (model (input_ids out)) k (snd (encode tok sep (raw_batch ! k)))
           (label (raw_batch ! k)) = Inr (p, m)
         \<and> rs ! k = annotate (raw_batch ! k) p m"
    by blast
  from each assms(2) obtain p m where
    "score_example (model (input_ids out)) k (snd (encode tok sep (raw_batch ! k)))
           (label (raw_batch ! k)) = Inr (p, m)" "rs ! k = annotate (raw_batch ! k) p m"
    by blast
  then show ?thesis using out by (auto simp: annotate_def)
qed

text \<open>
  What the encoder and the judge do for an item with no steps.  The item is encoded with no
  score position.  On logits with a row for the item and at least one class, its scoring
  does not raise, whatever the label is: the prediction is \<open>-1\<close> and \<open>match\<close> says whether
  the label is \<open>-1\<close>.  In every batch that is scored, the result stored for such an item
  carries the prediction \<open>-1\<close>.
\<close>

lemma empty_steps_scoring:
  assumes "steps ex = []"
  shows "snd (encode tok sep ex) = []
       \<and> (i < dim0 logits \<and> 0 < dim2 logits \<longrightarrow>
            score_example logits i (snd (encode tok sep ex)) (label ex)
              = Inr (- 1, (- 1 = label ex)))
       \<and> (\<forall>results k. score_batch model tok sep raw_batch = Inr results
              \<and> k < length raw_batch \<and> raw_batch ! k = ex
            \<longrightarrow> prediction (results ! k) = - 1
              \<and> match (results ! k) = (- 1 = label ex))"
proof -
  have enc: "snd (encode tok sep ex) = []"
    using assms by (simp add: encode_def)
  have one: "i < dim0 logits \<and> 0 < dim2 logits \<longrightarrow>
      score_example logits i (snd (encode tok sep ex)) (label ex) = Inr (- 1, (- 1 = label ex))"
    by (simp add: enc score_example_empty)
  have all: "prediction (results ! k) = - 1 \<and> match (results ! k) = (- 1 = label ex)"
    if run: "score_batch model tok sep raw_batch = Inr results" and k: "k < length raw_batch"
      and ex: "raw_batch ! k = ex" for results k
  proof -
    from score_batch_prediction [OF run k] obtain out p m where
      "collate_fn raw_batch tok sep = Inr out"
      and pm: "score_example (model (input_ids out)) k (snd (encode tok sep ex)) (label ex) = Inr (p, m)"
      and r: "prediction (results ! k) = p" "match (results ! k) = m"
      using ex by auto
    from score_example_Inr [OF pm]
    have "k < dim0 (model (input_ids out))" "0 < dim2 (model (input_ids out))" by simp_all
    then have "score_example (model (input_ids out)) k [] (label ex) = Inr (- 1, (- 1 = label ex))"
      by (rule score_example_empty)
    with pm have "Inr (p, m) = (Inr (- 1, (- 1 = label ex)) :: error + int \<times> bool)"
      by (simp only: enc)
    then have "p = - 1" "m = (- 1 = label ex)" by blast+
    then show ?thesis using r by simp
  qed
  show ?thesis using enc one all by blast
qed

lemma empty_steps_scoring_example:
  "score_batch toy_model byte_tokenizer newline [\<lparr>problem = ''pq'', steps = [], label = 2\<rparr>]
     = Inr [\<lparr>problem = ''pq'', steps = [], label = 2, prediction = - 1, match = False\<rparr>]"
  by code_simp

text \<open>
  The scoring iteration raises, for every model, on a batch that holds an item whose
  sequence has exactly one token: the packer fails before the model is called.
\<close>

lemma score_batch_raises_one_token:
  assumes "ex \<in> set raw_batch" "length (fst (encode tok sep ex)) = 1"
  shows "score_batch model tok sep raw_batch = Inl RuntimeError"
  using collate_fn_raises_one_token [OF assms] by (simp add: score_batch_def)

text \<open>
  C4.  The claim has every item with no steps end with the prediction \<open>-1\<close>, never with an
  error.  The encoder records no score position for such an item and the judge returns \<open>-1\<close>
  on the empty tensor, but the pipeline does not get that far when the problem of the item
  and the separator tokenize to a single token: the packer raises on the one-token sequence
  (the defect shown under C2), whatever the model is, and no prediction is stored.  The
  first item is the empty problem under the byte tokenizer, the second a one-letter problem
  under the tokenizer that drops white space; neither has steps.
\<close>

theorem empty_steps_one_token_raises:
  "steps \<lparr>problem = '''', steps = [], label = - 1\<rparr> = []
 \<and> snd (encode byte_tokenizer newline \<lparr>problem = '''', steps = [], label = - 1\<rparr>) = []
 \<and> score_batch model byte_tokenizer newline [\<lparr>problem = '''', steps = [], label = - 1\<rparr>]
     = Inl RuntimeError
 \<and> snd (encode nonspace_tokenizer newline \<lparr>problem = ''x'', steps = [], label = - 1\<rparr>) = []
 \<and> score_batch model nonspace_tokenizer newline
       [\<lparr>problem = ''ab'', steps = [''c''], label = 0\<rparr>,
        \<lparr>problem = ''x'', steps = [], label = - 1\<rparr>]
     = Inl RuntimeError"
proof -
  let ?e1 = "\<lparr>problem = '''', steps = [], label = - 1\<rparr>"
  let ?e2 = "\<lparr>problem = ''x'', steps = [], label = - 1\<rparr>"
  let ?b2 = "[\<lparr>problem = ''ab'', steps = [''c''], label = 0\<rparr>, ?e2]"
  have "?e1 \<in> set [?e1]" by simp
  moreover have "length (fst (encode byte_tokenizer newline ?e1)) = 1"
    by (simp add: encode_def byte_tokenizer_def newline_def)
  ultimately have r1: "score_batch model byte_tokenizer newline [?e1] = Inl RuntimeError"
    by (rule score_batch_raises_one_token)
  have "?e2 \<in> set ?b2" by simp
  moreover have "length (fst (encode nonspace_tokenizer newline ?e2)) = 1"
    by (simp add: encode_def nonspace_tokenizer_def newline_def)
  ultimately have r2: "score_batch model nonspace_tokenizer newline ?b2 = Inl RuntimeError"
    by (rule score_batch_raises_one_token)
  show ?thesis using r1 r2 by (simp add: encode_def)
qed

text \<open>
  C10.  \<open>find_first_zero\<close> on a tensor of length \<open>n\<close> returns \<open>-1\<close> or an index in
  \<open>[0, n)\<close>; the encoder records one score position per step; the tensor of predicted classes
  of an item has one entry per score position; hence every prediction stored by a scored
  batch is \<open>-1\<close> or a valid index into the steps of its item.
\<close>

theorem prediction_in_range:
  "(find_first_zero t = - 1 \<or> (0 \<le> find_first_zero t \<and> find_first_zero t < int (length t)))
 \<and> length (snd (encode tok sep ex)) = length (steps ex)
 \<and> (\<forall>p m. score_example logits i score_id lbl = Inr (p, m) \<longrightarrow>
       (\<exists>pred. length pred = length score_id \<and> p = find_first_zero pred))
 \<and> (\<forall>results. score_batch model tok sep raw_batch = Inr results \<longrightarrow>
       length results = length raw_batch
     \<and> (\<forall>k < length raw_batch.
           prediction (results ! k) = - 1
         \<or> (0 \<le> prediction (results ! k)
            \<and> prediction (results ! k) < int (length (steps (raw_batch ! k))))))"
proof -
  have a: "\<exists>pred. length pred = length score_id \<and> p = find_first_zero pred"
    if "score_example logits i score_id lbl = Inr (p, m)" for p m
    using score_example_Inr [OF that] by blast
  have b: "length results = length raw_batch
     \<and> (\<forall>k < length raw_batch.
           prediction (results ! k) = - 1
         \<or> (0 \<le> prediction (results ! k)
            \<and> prediction (results ! k) < int (length (steps (raw_batch ! k)))))"
    if run: "score_batch model tok sep raw_batch = Inr results" for results
  proof (intro conjI allI impI)
    show "length results = length raw_batch"
      using score_batch_Inr [OF run] by simp
  next
    fix k assume k: "k < length raw_batch"
    from score_batch_prediction [OF run k] obtain out p m where
      "collate_fn raw_batch tok sep = Inr out"
      and pm: "score_example (model (input_ids out)) k (snd (encode tok sep (raw_batch ! k)))
             (label (raw_batch ! k)) = Inr (p, m)"
      and r: "prediction (results ! k) = p"
      by blast
    from score_example_range [OF pm] show "prediction (results ! k) = - 1
         \<or> (0 \<le> prediction (results ! k)
            \<and> prediction (results ! k) < int (length (steps (raw_batch ! k))))"
      by (simp add: r encode_length)
  qed
  show ?thesis
    using find_first_zero_range [of t] encode_length [of tok sep ex] a b by blast
qed

theorem prediction_in_range_witness:
  "\<exists>results. score_batch toy_model byte_tokenizer newline
       [\<lparr>problem = ''p'', steps = [''a'', ''bx'', ''cx''], label = 1\<rparr>,
        \<lparr>problem = ''q'', steps = [''d''], label = - 1\<rparr>] = Inr results
     \<and> map prediction results = [1, - 1]
     \<and> length results = 2
     \<and> 0 \<le> prediction (results ! 0) \<and> prediction (results ! 0) < 3"
proof -
  let ?b = "[\<lparr>problem = ''p'', steps = [''a'', ''bx'', ''cx''], label = 1\<rparr>,
             \<lparr>problem = ''q'', steps = [''d''], label = - 1\<rparr>]"
  let ?rs = "[\<lparr>problem = ''p'', steps = [''a'', ''bx'', ''cx''], label = 1,
                prediction = 1, match = True\<rparr>,
              \<lparr>problem = ''q'', steps = [''d''], label = - 1, prediction = - 1, match = True\<rparr>]"
  have run: "score_batch toy_model byte_tokenizer newline ?b = Inr ?rs"
    by code_simp
  from prediction_in_range [where tok = byte_tokenizer and sep = newline
      and model = toy_model and raw_batch = ?b] run
  have len: "length ?rs = length ?b"
    and rng: "\<forall>k < length ?b. prediction (?rs ! k) = - 1
         \<or> (0 \<le> prediction (?rs ! k) \<and> prediction (?rs ! k) < int (length (steps (?b ! k))))"
    by blast+
  from rng [rule_format, of 0] have "0 \<le> prediction (?rs ! 0) \<and> prediction (?rs ! 0) < 3"
    by simp
  with run len show ?thesis by simp
qed

section \<open>Properties of the metrics aggregator\<close>

lemma f1_score_Finite:
  "f1_score (Finite a) (Finite b) =
     (if a + b = 0 then (if a * b = 0 then NaN else if 0 < a * b then PInf else NInf)
      else Finite (2 * a * b / (a + b)))"
  by (simp add: f1_score_def zero_less_mult_iff)

lemma f1_score_NaN_left: "f1_score NaN y = NaN"
  by (simp add: f1_score_def)

lemma f1_score_NaN_right: "f1_score x NaN = NaN"
  by (cases "fmul (Finite 2) x") (simp_all add: f1_score_def)

lemma accuracy_cases:
  "fmul (np_mean xs) (Finite 100) =
     (if xs = [] then NaN else Finite (real (length (filter (\<lambda>b. b) xs)) / real (length xs) * 100))"
  by (simp add: np_mean_def)

lemma accuracy_range:
  assumes "xs \<noteq> []"
  shows "\<exists>c. 0 \<le> c \<and> c \<le> 100 \<and> fmul (np_mean xs) (Finite 100) = Finite c"
proof -
  let ?c = "real (length (filter (\<lambda>b. b) xs)) / real (length xs) * 100"
  have "length (filter (\<lambda>b. b) xs) \<le> length xs" by simp
  then have "real (length (filter (\<lambda>b. b) xs)) / real (length xs) \<le> 1"
    using assms by (simp add: divide_le_eq_1)
  then have "real (length (filter (\<lambda>b. b) xs)) / real (length xs) * 100 \<le> 1 * 100"
    by (rule mult_right_mono) simp
  then have "?c \<le> 100" by simp
  moreover have "0 \<le> ?c" by simp
  ultimately show ?thesis using assms by (auto simp: accuracy_cases)
qed

lemma aggregate_f1:
  "all_f1_scores (aggregate save_dir config num gathered out) =
     all_f1_scores out @
       [f1_score (fmul (np_mean (map match (filter (\<lambda>e. label e \<noteq> - 1) gathered))) (Finite 100))
                 (fmul (np_mean (map match (filter (\<lambda>e. label e = - 1) gathered))) (Finite 100))]"
  by (simp add: aggregate_def Let_def)

text \<open>
  C6, as the claim states it, fails: with \<open>acc_error = 0.0\<close> and \<open>acc_correct = 50.0\<close> the
  denominator is \<open>50\<close> and the computation yields \<open>0.0\<close>, not not-a-number.
\<close>

theorem f1_score_nan_counterexample:
  "f1_score (Finite 0) (Finite 50) = Finite 0 \<and> f1_score (Finite 0) (Finite 50) \<noteq> NaN"
  by (simp add: f1_score_def)

text \<open>
  C6, amended.  For accuracies \<open>a, b \<ge> 0\<close> the F1 computation yields not-a-number exactly
  when both are \<open>0\<close>; it also yields not-a-number when an accuracy is itself not-a-number
  (the mean over an empty partition); an accuracy over a non-empty partition is finite and
  lies in \<open>[0, 100]\<close>.  When exactly one accuracy is \<open>0\<close> the result is \<open>0\<close>.  Whatever the
  value is, the aggregator appends it to \<open>all_f1_scores\<close> as computed.
\<close>

theorem f1_score_nan:
  "(0 \<le> a \<and> 0 \<le> b \<longrightarrow> (f1_score (Finite a) (Finite b) = NaN \<longleftrightarrow> a = 0 \<and> b = 0))
 \<and> f1_score NaN y = NaN
 \<and> f1_score x NaN = NaN
 \<and> (0 < b \<longrightarrow> f1_score (Finite 0) (Finite b) = Finite 0)
 \<and> (0 < a \<longrightarrow> f1_score (Finite a) (Finite 0) = Finite 0)
 \<and> fmul (np_mean []) (Finite 100) = NaN
 \<and> (matches \<noteq> [] \<longrightarrow>
      (\<exists>c. 0 \<le> c \<and> c \<le> 100 \<and> fmul (np_mean matches) (Finite 100) = Finite c))
 \<and> all_f1_scores (aggregate save_dir config num gathered out) =
     all_f1_scores out @
       [f1_score (fmul (np_mean (map match (filter (\<lambda>e. label e \<noteq> - 1) gathered))) (Finite 100))
                 (fmul (np_mean (map match (filter (\<lambda>e. label e = - 1) gathered))) (Finite 100))]"
proof -
  have "f1_score (Finite a) (Finite b) = NaN \<longleftrightarrow> a = 0 \<and> b = 0" if "0 \<le> a" "0 \<le> b"
  proof (cases "a + b = 0")
    case True
    then have "a = 0" "b = 0" using that by linarith+
    then show ?thesis by (simp add: f1_score_Finite)
  next
    case False
    then have "\<not> (a = 0 \<and> b = 0)" by auto
    then show ?thesis using False by (simp add: f1_score_Finite)
  qed
  moreover have "f1_score (Finite 0) (Finite b) = Finite 0" if "0 < b"
    using that by (simp add: f1_score_Finite)
  moreover have "f1_score (Finite a) (Finite 0) = Finite 0" if "0 < a"
    using that by (simp add: f1_score_Finite)
  moreover have "fmul (np_mean []) (Finite 100) = NaN" by (simp add: np_mean_def)
  moreover have "matches \<noteq> [] \<longrightarrow>
      (\<exists>c. 0 \<le> c \<and> c \<le> 100 \<and> fmul (np_mean matches) (Finite 100) = Finite c)"
    using accuracy_range [of matches] by blast
  ultimately show ?thesis
    using f1_score_NaN_left [of y] f1_score_NaN_right [of x]
      aggregate_f1 [of save_dir config num gathered out]
    by blast
qed

theorem f1_score_nan_witness:
  "f1_score (Finite 0) (Finite 0) = NaN
 \<and> f1_score (Finite 0) (Finite 50) = Finite 0
 \<and> f1_score (Finite 50) (Finite 0) = Finite 0
 \<and> f1_score (Finite 25) (Finite 75) \<noteq> NaN"
proof -
  have "f1_score (Finite 0) (Finite 0) = NaN"
    using f1_score_nan [of 0 0] by simp
  moreover have "f1_score (Finite 0) (Finite 50) = Finite 0"
    using f1_score_nan [of 0 50] by simp
  moreover have "f1_score (Finite 50) (Finite 0) = Finite 0"
    using f1_score_nan [of 50 0] by simp
  moreover have "f1_score (Finite 25) (Finite 75) \<noteq> NaN"
    using f1_score_nan [of 25 75] by simp
  ultimately show ?thesis by blast
qed

lemma rounded_exact: "x \<in> float64 \<Longrightarrow> rounded rnd (Finite x) = Finite x"
  by (simp add: rounded_def)

lemma rounded_keep: "rounded Finite v = v"
  by (cases v) (simp_all add: rounded_def)

lemma f1_float_keep: "f1_float Finite acc1 acc2 = f1_score acc1 acc2"
  by (simp add: f1_float_def f1_score_def rounded_keep)

lemma float64_double:
  assumes "a \<in> float64" "\<bar>a\<bar> < 2 ^ 1023"
  shows "2 * a \<in> float64"
proof -
  from assms(1) obtain m e :: int where a: "a = of_int m * 2 powi e"
    and m: "\<bar>m\<bar> < 2 ^ 53" and e: "- 1074 \<le> e" "e \<le> 971"
    by (auto simp: float64_def)
  show ?thesis
  proof (cases "e < 971")
    case True
    have "2 * a = of_int m * 2 powi (e + 1)"
      by (simp add: a power_int_add)
    moreover have "- 1074 \<le> e + 1" "e + 1 \<le> 971" using e True by simp_all
    ultimately show ?thesis using m unfolding float64_def by blast
  next
    case False
    then have e971: "e = 971" using e by simp
    have "\<bar>a\<bar> = of_int \<bar>m\<bar> * 2 ^ 971"
      by (simp add: a e971 abs_mult)
    then have "of_int \<bar>m\<bar> * (2 :: real) ^ 971 < 2 ^ 52 * 2 ^ 971"
      using assms(2) by (simp add: power_add [symmetric])
    then have "(of_int \<bar>m\<bar> :: real) < 2 ^ 52"
      by (simp only: mult_less_cancel_right_pos zero_less_power zero_less_numeral)
    then have m52: "\<bar>m\<bar> < 2 ^ 52"
      by (metis of_int_less_iff of_int_numeral of_int_power)
    have "2 * a = of_int (2 * m) * 2 powi e"
      by (simp add: a)
    moreover have "\<bar>2 * m\<bar> < 2 ^ 53" using m52 by simp
    ultimately show ?thesis using e unfolding float64_def by blast
  qed
qed

text \<open>
  C7.  The F1 computation, with every operation rounded, is symmetric in its two
  accuracies: for float64 values \<open>a\<close> and \<open>b\<close> of magnitude below \<open>2 ^ 1023\<close>, as every
  accuracy is, with \<open>a + b \<noteq> 0\<close>, both orders give the same value, whatever the rounding
  mode does to inexact results.  Doubling such a value is exact, so both orders round the
  same product \<open>2ab\<close>, the same sum and the same quotient.
\<close>

theorem f1_float_symmetric:
  assumes "a \<in> float64" "b \<in> float64" "\<bar>a\<bar> < 2 ^ 1023" "\<bar>b\<bar> < 2 ^ 1023" "a + b \<noteq> 0"
  shows "f1_float rnd (Finite a) (Finite b) = f1_float rnd (Finite b) (Finite a)"
proof -
  have da: "rounded rnd (fmul (Finite 2) (Finite a)) = Finite (2 * a)"
    using float64_double [OF assms(1,3)] by (simp add: rounded_exact)
  have db: "rounded rnd (fmul (Finite 2) (Finite b)) = Finite (2 * b)"
    using float64_double [OF assms(2,4)] by (simp add: rounded_exact)
  have prod: "fmul (Finite (2 * a)) (Finite b) = fmul (Finite (2 * b)) (Finite a)"
    by (simp add: mult.commute mult.left_commute)
  have sum: "fadd (Finite a) (Finite b) = fadd (Finite b) (Finite a)"
    by (simp add: add.commute)
  show ?thesis
    unfolding f1_float_def da db prod sum ..
qed

theorem f1_float_symmetric_witness:
  "(30 :: real) \<in> float64 \<and> (70 :: real) \<in> float64
 \<and> \<bar>30 :: real\<bar> < 2 ^ 1023 \<and> \<bar>70 :: real\<bar> < 2 ^ 1023 \<and> (30 :: real) + 70 \<noteq> 0
 \<and> f1_float (\<lambda>x. NaN) (Finite 30) (Finite 70) = f1_float (\<lambda>x. NaN) (Finite 70) (Finite 30)
 \<and> f1_float (\<lambda>x. NaN) (Finite 30) (Finite 70) = Finite 42"
proof -
  have mem: "of_int m \<in> float64" if "\<bar>m\<bar> < 2 ^ 53" for m :: int
    unfolding float64_def using that
    by (intro CollectI exI [of _ m] exI [of _ "0 :: int"]) simp
  have m30: "(30 :: real) \<in> float64" using mem [of 30] by simp
  have m70: "(70 :: real) \<in> float64" using mem [of 70] by simp
  have m60: "(60 :: real) \<in> float64" using mem [of 60] by simp
  have m100: "(100 :: real) \<in> float64" using mem [of 100] by simp
  have m4200: "(4200 :: real) \<in> float64" using mem [of 4200] by simp
  have m42: "(42 :: real) \<in> float64" using mem [of 42] by simp
  have b30: "\<bar>30 :: real\<bar> < 2 ^ 1023" by simp
  have b70: "\<bar>70 :: real\<bar> < 2 ^ 1023" by simp
  have nz: "(30 :: real) + 70 \<noteq> 0" by simp
  have v: "f1_float (\<lambda>x. NaN) (Finite 30) (Finite 70) = Finite 42"
    by (simp add: f1_float_def rounded_def m60 m100 m4200 m42)
  from f1_float_symmetric [OF m30 m70 b30 b70 nz, of "\<lambda>x. NaN"] v m30 m70 b30 b70 nz
  show ?thesis by blast
qed

text \<open>
  The bound on the magnitudes is needed.  At \<open>a = 2 ^ 1023\<close> and \<open>b = 1/4\<close> doubling \<open>a\<close>
  leaves the float64 range: under a mode that overflows \<open>2 ^ 1024\<close> to infinity and rounds
  \<open>a + b\<close> to \<open>a\<close>, as rounding to nearest does, one order yields infinity and the other
  \<open>1/2\<close>.
\<close>

lemma float64_bound:
  assumes "x \<in> float64"
  shows "\<bar>x\<bar> < 2 ^ 1024"
proof -
  from assms obtain m e :: int where x: "x = of_int m * 2 powi e"
    and m: "\<bar>m\<bar> < 2 ^ 53" and e: "e \<le> 971"
    by (auto simp: float64_def)
  have "(of_int \<bar>m\<bar> :: real) < of_int (2 ^ 53)"
    using m by (simp only: of_int_less_iff)
  then have m': "\<bar>of_int m :: real\<bar> < 2 ^ 53" by simp
  have "(2 :: real) powi e \<le> 2 powi 971"
    using e by (intro power_int_increasing) simp_all
  then have e': "(2 :: real) powi e \<le> 2 ^ 971" by simp
  have "\<bar>x\<bar> = \<bar>of_int m :: real\<bar> * 2 powi e"
    by (simp add: x abs_mult)
  also have "\<dots> \<le> \<bar>of_int m :: real\<bar> * 2 ^ 971"
    using e' by (intro mult_left_mono) simp_all
  also have "\<dots> < 2 ^ 53 * 2 ^ 971"
    using m' by (intro mult_strict_right_mono) simp_all
  also have "\<dots> = (2 :: real) ^ 1024"
    by (simp add: power_add [symmetric])
  finally show ?thesis .
qed

lemma float64_pow2:
  assumes "- 1074 \<le> e" "e \<le> 1023"
  shows "(2 :: real) powi e \<in> float64"
proof (cases "e \<le> 971")
  case True
  have "(2 :: real) powi e = of_int 1 * 2 powi e" by simp
  moreover have "\<bar>1 :: int\<bar> < 2 ^ 53" by simp
  ultimately show ?thesis using assms(1) True unfolding float64_def by blast
next
  case False
  define k where "k = nat (e - 971)"
  have k: "k \<le> 52" "e = 971 + int k" using False assms(2) by (simp_all add: k_def)
  have "(2 :: real) powi (971 + int k) = 2 powi 971 * 2 powi (int k)"
    by (rule power_int_add) simp
  also have "\<dots> = 2 powi (int k) * 2 powi 971"
    by (rule mult.commute)
  also have "2 powi (int k) = (of_int (2 ^ k) :: real)"
    by (simp only: power_int_of_nat of_int_power of_int_numeral)
  finally have "(2 :: real) powi e = of_int (2 ^ k) * 2 powi 971"
    by (simp only: k(2))
  moreover have "\<bar>2 ^ k :: int\<bar> < 2 ^ 53"
  proof -
    have "(2 :: int) ^ k < 2 ^ 53"
      using k(1) by (intro power_strict_increasing) simp_all
    moreover have "\<bar>2 ^ k :: int\<bar> = 2 ^ k" by simp
    ultimately show ?thesis by (simp only:)
  qed
  ultimately show ?thesis unfolding float64_def
    by (intro CollectI exI [of _ "2 ^ k"] exI [of _ "971 :: int"]) simp
qed

lemma f1_float_overflow_asymmetric:
  assumes "rnd (2 ^ 1024) = PInf"
    and "rounded rnd (Finite (2 ^ 1023 + 1 / 4)) = Finite (2 ^ 1023)"
  shows "f1_float rnd (Finite (2 ^ 1023)) (Finite (1 / 4)) = PInf"
    and "f1_float rnd (Finite (1 / 4)) (Finite (2 ^ 1023)) = Finite (1 / 2)"
proof -
  have big: "(2 :: real) ^ 1024 \<notin> float64"
    using float64_bound [of "2 ^ 1024"] by auto
  have half: "(1 / 2 :: real) \<in> float64"
    using float64_pow2 [of "- 1"] by (simp add: power_int_minus field_simps)
  have p1022: "(2 :: real) ^ 1022 \<in> float64"
    using float64_pow2 [of 1022] by simp
  have two_a: "2 * (2 :: real) ^ 1023 = 2 ^ 1024" by simp
  have sum': "(1 / 4 :: real) + 2 ^ 1023 = 2 ^ 1023 + 1 / 4" by simp
  have prod: "(1 / 2 :: real) * 2 ^ 1023 = 2 ^ 1022" by simp
  have quot: "(2 :: real) ^ 1022 / 2 ^ 1023 = 1 / 2" by simp
  have dbl: "2 * (1 / 4 :: real) = 1 / 2" by simp
  have num1: "rounded rnd (fmul (Finite 2) (Finite (2 ^ 1023))) = PInf"
    using big assms(1) by (simp add: rounded_def)
  show "f1_float rnd (Finite (2 ^ 1023)) (Finite (1 / 4)) = PInf"
    unfolding f1_float_def num1 using assms(2) by (simp add: rounded_def)
  have num2: "rounded rnd (fmul (Finite 2) (Finite (1 / 4))) = Finite (1 / 2)"
    using half by (simp only: fmul.simps dbl rounded_exact)
  have num3: "rounded rnd (fmul (Finite (1 / 2)) (Finite (2 ^ 1023))) = Finite (2 ^ 1022)"
    using p1022 by (simp only: fmul.simps prod rounded_exact)
  have den: "rounded rnd (fadd (Finite (1 / 4)) (Finite (2 ^ 1023))) = Finite (2 ^ 1023)"
    using assms(2) by (simp only: fadd.simps sum')
  have "fdiv (Finite (2 ^ 1022)) (Finite (2 ^ 1023)) = Finite (1 / 2)"
    by (simp only: fdiv.simps quot) simp
  then show "f1_float rnd (Finite (1 / 4)) (Finite (2 ^ 1023)) = Finite (1 / 2)"
    unfolding f1_float_def num2 num3 den using half by (simp only: rounded_exact)
qed

text \<open>
  C8.  The expected counts \<open>num\<close> only decide which mismatch lines are printed.  Compared
  with a run whose expected counts match the partition sizes, a run with any other counts
  writes the same two files, appends the same F1 value and prints the same report line;
  it prints one mismatch line before the report for each partition whose size differs.
\<close>

theorem mismatch_warning_nonfatal:
  "(let data1 = filter (\<lambda>e. label e \<noteq> - 1) gathered;
        data2 = filter (\<lambda>e. label e = - 1) gathered;
        acc1 = fmul (np_mean (map match data1)) (Finite 100);
        acc2 = fmul (np_mean (map match data2)) (Finite 100);
        res = aggregate save_dir config num gathered out;
        ref = aggregate save_dir config (int (length data1), int (length data2)) gathered out
    in files res = files ref
     \<and> files res = (files out)(save_dir @ ''/'' @ config @ ''_error.jsonl'' \<mapsto> data1,
                                save_dir @ ''/'' @ config @ ''_correct.jsonl'' \<mapsto> data2)
     \<and> all_f1_scores res = all_f1_scores ref
     \<and> all_f1_scores res = all_f1_scores out @ [f1_score acc1 acc2]
     \<and> stdout ref = stdout out @ [AccReport config acc1 acc2 (f1_score acc1 acc2)]
     \<and> stdout res = stdout out
         @ (if int (length data1) \<noteq> fst num
            then [ErrorNumMismatch config (int (length data1)) (fst num)] else [])
         @ (if int (length data2) \<noteq> snd num
            then [CorrectNumMismatch config (int (length data2)) (snd num)] else [])
         @ [AccReport config acc1 acc2 (f1_score acc1 acc2)])"
  by (simp add: aggregate_def Let_def)

theorem mismatch_warning_nonfatal_witness:
  "stdout (aggregate ''outputs/prm'' ''gsm8k'' (207, 193)
      [\<lparr>problem = ''p'', steps = [''a'', ''b''], label = - 1, prediction = - 1, match = True\<rparr>,
       \<lparr>problem = ''q'', steps = [''c'', ''d''], label = 0, prediction = 0, match = True\<rparr>,
       \<lparr>problem = ''r'', steps = [''e'', ''f''], label = 1, prediction = 1, match = True\<rparr>]
      \<lparr>stdout = [], files = Map.empty, all_f1_scores = []\<rparr>)
    = [ErrorNumMismatch ''gsm8k'' 2 207, CorrectNumMismatch ''gsm8k'' 1 193,
       AccReport ''gsm8k'' (Finite 100) (Finite 100) (Finite 100)]
 \<and> all_f1_scores (aggregate ''outputs/prm'' ''gsm8k'' (207, 193)
      [\<lparr>problem = ''p'', steps = [''a'', ''b''], label = - 1, prediction = - 1, match = True\<rparr>,
       \<lparr>problem = ''q'', steps = [''c'', ''d''], label = 0, prediction = 0, match = True\<rparr>,
       \<lparr>problem = ''r'', steps = [''e'', ''f''], label = 1, prediction = 1, match = True\<rparr>]
      \<lparr>stdout = [], files = Map.empty, all_f1_scores = []\<rparr>)
    = [Finite 100]"
proof -
  note w = mismatch_warning_nonfatal [where save_dir = "''outputs/prm''" and config = "''gsm8k''"
      and num = "(207, 193)" and out = "\<lparr>stdout = [], files = Map.empty, all_f1_scores = []\<rparr>"
      and gathered =
        "[\<lparr>problem = ''p'', steps = [''a'', ''b''], label = - 1, prediction = - 1, match = True\<rparr>,
          \<lparr>problem = ''q'', steps = [''c'', ''d''], label = 0, prediction = 0, match = True\<rparr>,
          \<lparr>problem = ''r'', steps = [''e'', ''f''], label = 1, prediction = 1, match = True\<rparr>]",
      unfolded Let_def]
  note f1 = w [THEN conjunct2, THEN conjunct2, THEN conjunct2, THEN conjunct1]
  note out = w [THEN conjunct2, THEN conjunct2, THEN conjunct2, THEN conjunct2, THEN conjunct2]
  show ?thesis
    by (rule conjI, subst out, simp add: np_mean_def f1_score_def,
        subst f1, simp add: np_mean_def f1_score_def)
qed

section \<open>Properties of the shard coordinator\<close>

lemma data_loader_concat: "0 < n \<Longrightarrow> concat (data_loader n xs) = xs"
proof (induction n xs rule: data_loader.induct)
  case (1 batch_size xs)
  show ?case
  proof (cases "xs = []")
    case True
    then show ?thesis by (simp add: data_loader.simps)
  next
    case False
    with 1 have "concat (data_loader batch_size (drop batch_size xs)) = drop batch_size xs"
      by simp
    with False "1.prems" show ?thesis
      by (subst data_loader.simps) simp
  qed
qed

lemma original_annotate: "original (annotate e p m) = e"
  by (simp add: original_def annotate_def)

lemma score_batch_original:
  assumes "score_batch model tok sep raw_batch = Inr rs"
  shows "map original rs = raw_batch"
proof (rule nth_equalityI)
  from score_batch_Inr [OF assms] show "length (map original rs) = length raw_batch"
    by simp
next
  fix k assume "k < length (map original rs)"
  then have k: "k < length raw_batch" "k < length rs"
    using score_batch_Inr [OF assms] by simp_all
  from score_batch_Inr [OF assms] k(1) obtain p m where "rs ! k = annotate (raw_batch ! k) p m"
    by blast
  then show "map original rs ! k = raw_batch ! k"
    using k(2) by (simp add: original_annotate)
qed

lemma res_data_loop_original:
  "res_data_loop model tok batches = Inr rs \<Longrightarrow> map original rs = concat batches"
proof (induction batches arbitrary: rs)
  case Nil
  then show ?case by simp
next
  case (Cons raw_batch rest)
  then obtain new_batch res_data where
    nb: "score_batch model tok separator raw_batch = Inr new_batch"
    and rd: "res_data_loop model tok rest = Inr res_data"
    and rs: "rs = new_batch @ res_data"
    by (auto split: sum.splits)
  show ?case
    using score_batch_original [OF nb] Cons.IH [OF rd] by (simp add: rs)
qed

lemma fetch_Inr:
  assumes "fetch dataset indices = Inr items"
  shows "items = map (\<lambda>i. dataset ! i) indices"
proof (rule nth_equalityI)
  note c = collect_Inr [OF assms [unfolded fetch_def]]
  show "length items = length (map (\<lambda>i. dataset ! i) indices)"
    using c by simp
  fix k assume "k < length items"
  then have k: "k < length indices" using c by simp
  with c have "(if indices ! k < length dataset then Inr (dataset ! (indices ! k))
                else Inl IndexError) = (Inr (items ! k) :: error + 'a)"
    by simp
  then show "items ! k = map (\<lambda>i. dataset ! i) indices ! k"
    using k by (simp split: if_splits)
qed

lemma evaluate_local_original:
  assumes "evaluate_local model tok smp acc dataset = Inr rs"
  shows "map original rs = map (\<lambda>i. dataset ! i) (shard_indices smp acc (length dataset))"
proof -
  obtain items where items: "fetch dataset (shard_indices smp acc (length dataset)) = Inr items"
    and loop: "res_data_loop model tok (data_loader bs items) = Inr rs"
    using assms by (auto simp: evaluate_local_def split: sum.splits)
  have "map original rs = concat (data_loader bs items)"
    by (rule res_data_loop_original [OF loop])
  also have "\<dots> = items"
    by (rule data_loader_concat) (simp add: bs_def)
  finally show ?thesis using fetch_Inr [OF items] by simp
qed

text \<open>
  The index lists are a partition only where a sampler is used or a single process runs:
  a process of any other distributed type iterates over the whole dataset.
\<close>

lemma shard_indices_without_sampler:
  "distributed_type accelerator \<noteq> MULTI_GPU \<Longrightarrow>
   shard_indices smp accelerator n = [0..<n]"
  by (simp add: shard_indices_def)

lemma fold_extend: "fold (\<lambda>process_data result. result @ process_data) xs acc = acc @ concat xs"
  by (induction xs arbitrary: acc) simp_all

lemma mset_concat_map:
  "mset (concat (map f xs)) = (\<Sum>x \<in># mset xs. mset (f x))"
  by (induction xs) simp_all

lemma gather_objects_main:
  "0 < W \<Longrightarrow>
   gather_objects (res 0) \<lparr>num_processes = W, process_index = 0, distributed_type = dt\<rparr>
     (map res [0..<W]) = Some (concat (map res [0..<W]))"
proof (cases "W = 1")
  case True
  then show ?thesis by (simp add: gather_objects_def)
next
  case False
  then show ?thesis
    by (simp add: gather_objects_def is_main_process_def fold_extend Let_def)
qed

text \<open>
  The merge for index lists that partition the dataset.  Let the index lists of the \<open>W\<close>
  processes partition the indices of the dataset, and let every process finish its local
  evaluation.  Then the main process obtains a merged list from \<open>gather_objects\<close>; it has
  exactly as many results as the dataset has items; the copied fields of the merged
  results, and so the identifiers under any identifier function, are the dataset's as a
  multiset, so that with distinct identifiers every item appears exactly once; and
  concatenating the processes' results in any other order gives the same multiset.
\<close>

lemma gather_partitioned:
  assumes "0 < W"
    and "mset (concat (map (\<lambda>r. shard_indices smp
             \<lparr>num_processes = W, process_index = r, distributed_type = dt\<rparr> (length dataset))
           [0..<W])) = mset [0..<length dataset]"
    and "\<forall>r < W. evaluate_local model tok smp
             \<lparr>num_processes = W, process_index = r, distributed_type = dt\<rparr> dataset = Inr (res r)"
  shows "\<exists>merged.
      gather_objects (res 0) \<lparr>num_processes = W, process_index = 0, distributed_type = dt\<rparr>
        (map res [0..<W]) = Some merged
    \<and> length merged = length dataset
    \<and> mset (map original merged) = mset dataset
    \<and> (\<forall>ident. mset (map (\<lambda>e. ident (original e)) merged) = mset (map ident dataset)
           \<and> (distinct (map ident dataset) \<longrightarrow>
                distinct (map (\<lambda>e. ident (original e)) merged)))
    \<and> (\<forall>order. mset order = mset [0..<W] \<longrightarrow>
           mset (concat (map res order)) = mset merged)"
proof -
  define shard where "shard r = shard_indices smp
      \<lparr>num_processes = W, process_index = r, distributed_type = dt\<rparr> (length dataset)" for r
  define merged where "merged = concat (map res [0..<W])"
  have g: "gather_objects (res 0) \<lparr>num_processes = W, process_index = 0, distributed_type = dt\<rparr>
        (map res [0..<W]) = Some merged"
    unfolding merged_def by (rule gather_objects_main [OF assms(1)])
  have each: "map original (res r) = map (\<lambda>i. dataset ! i) (shard r)" if "r < W" for r
    using assms(3) that evaluate_local_original [of model tok smp _ dataset "res r"]
    by (simp add: shard_def)
  have "map original merged = concat (map (\<lambda>r. map original (res r)) [0..<W])"
    by (simp add: merged_def map_concat comp_def)
  also have "\<dots> = concat (map (\<lambda>r. map (\<lambda>i. dataset ! i) (shard r)) [0..<W])"
    using each by (auto intro!: arg_cong [where f = concat])
  also have "\<dots> = map (\<lambda>i. dataset ! i) (concat (map shard [0..<W]))"
    by (simp add: map_concat comp_def)
  finally have orig: "map original merged = map (\<lambda>i. dataset ! i) (concat (map shard [0..<W]))" .
  have "mset (map original merged) = image_mset (\<lambda>i. dataset ! i) (mset (concat (map shard [0..<W])))"
    by (simp add: orig)
  also have "\<dots> = image_mset (\<lambda>i. dataset ! i) (mset [0..<length dataset])"
    using assms(2) unfolding shard_def [abs_def] by (rule arg_cong)
  also have "\<dots> = mset (map (\<lambda>i. dataset ! i) [0..<length dataset])"
    by simp
  also have "\<dots> = mset dataset"
    by (simp add: map_nth)
  finally have ms: "mset (map original merged) = mset dataset" .
  have len: "length merged = length dataset"
    using arg_cong [OF ms, of size] by simp
  have idents: "mset (map (\<lambda>e. ident (original e)) merged) = mset (map ident dataset)
      \<and> (distinct (map ident dataset) \<longrightarrow> distinct (map (\<lambda>e. ident (original e)) merged))"
    for ident :: "example \<Rightarrow> 'i"
  proof -
    have "mset (map (\<lambda>e. ident (original e)) merged) = image_mset ident (mset (map original merged))"
      by (simp add: image_mset.compositionality comp_def)
    then have eq: "mset (map (\<lambda>e. ident (original e)) merged) = mset (map ident dataset)"
      using ms by simp
    then show ?thesis
      using mset_eq_imp_distinct_iff by blast
  qed
  have order: "mset (concat (map res order)) = mset merged" if "mset order = mset [0..<W]" for order
  proof -
    have "mset (concat (map res order)) = (\<Sum>r \<in># mset order. mset (res r))"
      by (rule mset_concat_map)
    also have "\<dots> = (\<Sum>r \<in># mset [0..<W]. mset (res r))"
      by (simp only: that)
    also have "\<dots> = mset merged"
      unfolding merged_def by (rule mset_concat_map [symmetric])
    finally show ?thesis .
  qed
  show ?thesis
    using g len ms idents order by blast
qed

text \<open>
  When \<open>num_replicas\<close> divides the dataset size the library sampler pads nothing, and rank
  \<open>r\<close> receives the indices congruent to \<open>r\<close>.
\<close>

lemma ceil_div_dvd: "0 < W \<Longrightarrow> W dvd N \<Longrightarrow> ceil_div N W * W = N"
proof -
  assume w: "0 < W" and "W dvd N"
  then obtain k where k: "N = W * k" by (auto simp: dvd_def)
  obtain v where v: "W = Suc v" using w by (cases W) simp_all
  have "(Suc v * k + Suc v - 1) div Suc v = (Suc v * k + v) div Suc v" by simp
  also have "\<dots> = k + v div Suc v" by (rule div_mult_self4) simp
  also have "\<dots> = k" by simp
  finally show ?thesis by (simp add: ceil_div_def k v)
qed

lemma slice_mod:
  fixes r W i :: nat
  assumes "r < W"
  shows "(r \<le> i \<and> (i - r) mod W = 0) \<longleftrightarrow> i mod W = r"
proof
  assume a: "r \<le> i \<and> (i - r) mod W = 0"
  then have "W dvd i - r" by (auto simp: mod_eq_0_iff_dvd)
  then have "\<exists>q. i - r = W * q" by (simp add: dvd_def)
  then obtain q where "i - r = W * q" by blast
  then have "i = r + W * q" using a by simp
  then show "i mod W = r" using assms by simp
next
  assume a: "i mod W = r"
  have "i = W * (i div W) + i mod W" by simp
  then have i: "i = W * (i div W) + r" using a by simp
  then have "r \<le> i" by simp
  moreover have "i - r = W * (i div W)" using i by simp
  then have "(i - r) mod W = 0" by simp
  ultimately show "r \<le> i \<and> (i - r) mod W = 0" by simp
qed

lemma torch_sampler_dvd:
  assumes "0 < W" "W dvd N" "r < W"
  shows "torch_distributed_sampler N W r = filter (\<lambda>i. i mod W = r) [0..<N]"
proof -
  have t: "ceil_div N W * W = N" using assms by (simp add: ceil_div_dvd)
  have "torch_distributed_sampler N W r = slice [0..<N] r N W"
    by (simp add: torch_distributed_sampler_def Let_def t)
  also have "\<dots> = map (\<lambda>i. [0..<N] ! i) (filter (\<lambda>i. i mod W = r) [0..<N])"
    by (simp add: slice_def slice_mod [OF assms(3)])
  also have "\<dots> = filter (\<lambda>i. i mod W = r) [0..<N]"
    by (rule map_idI) simp
  finally show ?thesis .
qed

lemma delta_sum:
  "(\<Sum>r \<in># mset [0..<n]. (if k = r then A else {#})) = (if k < n then A else ({#} :: 'a multiset))"
  by (induction n) auto

lemma mod_partition:
  assumes "0 < W"
  shows "(\<Sum>r \<in># mset [0..<W]. mset (filter (\<lambda>i. i mod W = r) xs)) = mset (xs :: nat list)"
proof (induction xs)
  case Nil
  then show ?case by simp
next
  case (Cons x xs)
  have "(\<Sum>r \<in># mset [0..<W]. mset (filter (\<lambda>i. i mod W = r) (x # xs)))
      = (\<Sum>r \<in># mset [0..<W]. (if x mod W = r then {#x#} else {#}) + mset (filter (\<lambda>i. i mod W = r) xs))"
    by (intro arg_cong [where f = sum_mset] image_mset_cong) simp
  also have "\<dots> = (\<Sum>r \<in># mset [0..<W]. (if x mod W = r then {#x#} else {#}))
                 + (\<Sum>r \<in># mset [0..<W]. mset (filter (\<lambda>i. i mod W = r) xs))"
    by (simp add: sum_mset.distrib)
  also have "\<dots> = {#x#} + mset xs"
    using assms by (simp only: delta_sum Cons.IH) simp
  finally show ?case by simp
qed

lemma shard_indices_partition:
  assumes "0 < W" "W = 1 \<or> (dt = MULTI_GPU \<and> W dvd N)"
  shows "mset (concat (map (\<lambda>r. shard_indices torch_distributed_sampler
             \<lparr>num_processes = W, process_index = r, distributed_type = dt\<rparr> N) [0..<W]))
         = mset [0..<N]"
proof (cases "dt = MULTI_GPU")
  case True
  have d: "W dvd N" using assms(2) by auto
  have "map (\<lambda>r. shard_indices torch_distributed_sampler
             \<lparr>num_processes = W, process_index = r, distributed_type = dt\<rparr> N) [0..<W]
        = map (\<lambda>r. filter (\<lambda>i. i mod W = r) [0..<N]) [0..<W]"
    using True assms(1) d by (simp add: shard_indices_def torch_sampler_dvd)
  then show ?thesis
    by (simp only: mset_concat_map mod_partition [OF assms(1)])
next
  case False
  then have "W = 1" using assms(2) by auto
  then show ?thesis using False by (simp add: shard_indices_def)
qed

text \<open>
  Without a sampler every process evaluates the whole dataset, and the merge of \<open>W\<close>
  processes holds every item \<open>W\<close> times.
\<close>

lemma gather_without_sampler:
  assumes "0 < W" "dt \<noteq> MULTI_GPU"
    and "\<forall>r < W. evaluate_local model tok smp
             \<lparr>num_processes = W, process_index = r, distributed_type = dt\<rparr> dataset = Inr (res r)"
  shows "\<exists>merged.
      gather_objects (res 0) \<lparr>num_processes = W, process_index = 0, distributed_type = dt\<rparr>
        (map res [0..<W]) = Some merged
    \<and> map original merged = concat (replicate W dataset)
    \<and> length merged = W * length dataset"
proof -
  have each: "map original (res r) = dataset" if "r < W" for r
  proof -
    from assms(3) that have "evaluate_local model tok smp
        \<lparr>num_processes = W, process_index = r, distributed_type = dt\<rparr> dataset = Inr (res r)"
      by blast
    from evaluate_local_original [OF this] show ?thesis
      using assms(2) by (simp add: shard_indices_def map_nth)
  qed
  have "map original (concat (map res [0..<W])) = concat (map (\<lambda>r. map original (res r)) [0..<W])"
    by (simp add: map_concat comp_def)
  also have "\<dots> = concat (map (\<lambda>r. dataset) [0..<W])"
    using each by (auto intro!: arg_cong [where f = concat])
  also have "\<dots> = concat (replicate W dataset)"
    by (simp add: map_replicate_const)
  finally have m: "map original (concat (map res [0..<W])) = concat (replicate W dataset)" .
  have "length (concat (map res [0..<W])) = length (concat (replicate W dataset))"
    using arg_cong [OF m, of length] by simp
  also have "\<dots> = W * length dataset"
    by (induction W) simp_all
  finally show ?thesis
    using gather_objects_main [OF assms(1), of res dt] m by simp
qed

text \<open>
  C5, as the claim states it, fails: the dataset is not always partitioned.  With two
  processes of a distributed type other than MULTI_GPU no sampler is used, both processes
  evaluate the one item of the dataset, and the merge holds two results.  With two
  MULTI_GPU processes and three items the library sampler pads the indices to four, the
  ranks receive \<open>[0, 2]\<close> and \<open>[1, 0]\<close>, and the merge holds four results, the first item
  twice.
\<close>

theorem gather_exactly_once_counterexample:
  "evaluate_local toy_model byte_tokenizer torch_distributed_sampler
      \<lparr>num_processes = 2, process_index = 0, distributed_type = OTHER_DISTRIBUTED\<rparr>
      [\<lparr>problem = ''p'', steps = [''a'', ''bx''], label = 1\<rparr>]
    = Inr [\<lparr>problem = ''p'', steps = [''a'', ''bx''], label = 1, prediction = 1, match = True\<rparr>]
 \<and> evaluate_local toy_model byte_tokenizer torch_distributed_sampler
      \<lparr>num_processes = 2, process_index = 1, distributed_type = OTHER_DISTRIBUTED\<rparr>
      [\<lparr>problem = ''p'', steps = [''a'', ''bx''], label = 1\<rparr>]
    = Inr [\<lparr>problem = ''p'', steps = [''a'', ''bx''], label = 1, prediction = 1, match = True\<rparr>]
 \<and> gather_objects
      [\<lparr>problem = ''p'', steps = [''a'', ''bx''], label = 1, prediction = 1, match = True\<rparr>]
      \<lparr>num_processes = 2, process_index = 0, distributed_type = OTHER_DISTRIBUTED\<rparr>
      [[\<lparr>problem = ''p'', steps = [''a'', ''bx''], label = 1, prediction = 1, match = True\<rparr>],
       [\<lparr>problem = ''p'', steps = [''a'', ''bx''], label = 1, prediction = 1, match = True\<rparr>]]
    = Some [\<lparr>problem = ''p'', steps = [''a'', ''bx''], label = 1, prediction = 1, match = True\<rparr>,
            \<lparr>problem = ''p'', steps = [''a'', ''bx''], label = 1, prediction = 1, match = True\<rparr>]
 \<and> evaluate_local toy_model byte_tokenizer torch_distributed_sampler
      \<lparr>num_processes = 2, process_index = 0, distributed_type = MULTI_GPU\<rparr>
      [\<lparr>problem = ''p'', steps = [''a'', ''bx''], label = 1\<rparr>,
       \<lparr>problem = ''q'', steps = [''d''], label = - 1\<rparr>,
       \<lparr>problem = ''r'', steps = [''ex'', ''f''], label = 0\<rparr>]
    = Inr [\<lparr>problem = ''p'', steps = [''a'', ''bx''], label = 1, prediction = 1, match = True\<rparr>,
           \<lparr>problem = ''r'', steps = [''ex'', ''f''], label = 0, prediction = 0, match = True\<rparr>]
 \<and> evaluate_local toy_model byte_tokenizer torch_distributed_sampler
      \<lparr>num_processes = 2, process_index = 1, distributed_type = MULTI_GPU\<rparr>
      [\<lparr>problem = ''p'', steps = [''a'', ''bx''], label = 1\<rparr>,
       \<lparr>problem = ''q'', steps = [''d''], label = - 1\<rparr>,
       \<lparr>problem = ''r'', steps = [''ex'', ''f''], label = 0\<rparr>]
    = Inr [\<lparr>problem = ''q'', steps = [''d''], label = - 1, prediction = - 1, match = True\<rparr>,
           \<lparr>problem = ''p'', steps = [''a'', ''bx''], label = 1, prediction = 1, match = True\<rparr>]
 \<and> gather_objects
      [\<lparr>problem = ''p'', steps = [''a'', ''bx''], label = 1, prediction = 1, match = True\<rparr>,
       \<lparr>problem = ''r'', steps = [''ex'', ''f''], label = 0, prediction = 0, match = True\<rparr>]
      \<lparr>num_processes = 2, process_index = 0, distributed_type = MULTI_GPU\<rparr>
      [[\<lparr>problem = ''p'', steps = [''a'', ''bx''], label = 1, prediction = 1, match = True\<rparr>,
        \<lparr>problem = ''r'', steps = [''ex'', ''f''], label = 0, prediction = 0, match = True\<rparr>],
       [\<lparr>problem = ''q'', steps = [''d''], label = - 1, prediction = - 1, match = True\<rparr>,
        \<lparr>problem = ''p'', steps = [''a'', ''bx''], label = 1, prediction = 1, match = True\<rparr>]]
    = Some [\<lparr>problem = ''p'', steps = [''a'', ''bx''], label = 1, prediction = 1, match = True\<rparr>,
            \<lparr>problem = ''r'', steps = [''ex'', ''f''], label = 0, prediction = 0, match = True\<rparr>,
            \<lparr>problem = ''q'', steps = [''d''], label = - 1, prediction = - 1, match = True\<rparr>,
            \<lparr>problem = ''p'', steps = [''a'', ''bx''], label = 1, prediction = 1, match = True\<rparr>]"
  by code_simp

text \<open>
  C5, amended.  Let \<open>W\<close> processes evaluate a dataset of \<open>N\<close> items, each on the indices the
  program gives it, and let every process finish.  If there is a single process, or the
  distributed type is MULTI_GPU and \<open>W\<close> divides \<open>N\<close>, the main process obtains a merged list
  from \<open>gather_objects\<close> with exactly \<open>N\<close> results; the copied fields of the merged results,
  and so the identifiers under any identifier function, are the dataset's as a multiset,
  so that with distinct identifiers every item appears exactly once; and concatenating the
  processes' results in any other order gives the same multiset.
\<close>

theorem gather_exactly_once:
  assumes "0 < W"
    and "W = 1 \<or> (dt = MULTI_GPU \<and> W dvd length dataset)"
    and "\<forall>r < W. evaluate_local model tok torch_distributed_sampler
             \<lparr>num_processes = W, process_index = r, distributed_type = dt\<rparr> dataset = Inr (res r)"
  shows "\<exists>merged.
      gather_objects (res 0) \<lparr>num_processes = W, process_index = 0, distributed_type = dt\<rparr>
        (map res [0..<W]) = Some merged
    \<and> length merged = length dataset
    \<and> mset (map original merged) = mset dataset
    \<and> (\<forall>ident. mset (map (\<lambda>e. ident (original e)) merged) = mset (map ident dataset)
           \<and> (distinct (map ident dataset) \<longrightarrow>
                distinct (map (\<lambda>e. ident (original e)) merged)))
    \<and> (\<forall>order. mset order = mset [0..<W] \<longrightarrow>
           mset (concat (map res order)) = mset merged)"
  using gather_partitioned [OF assms(1) shard_indices_partition [OF assms(1,2)] assms(3)] .

theorem gather_exactly_once_witness:
  "\<exists>merged.
     gather_objects
       [\<lparr>problem = ''p'', steps = [''a'', ''bx''], label = 1, prediction = 1, match = True\<rparr>,
        \<lparr>problem = ''r'', steps = [''ex'', ''f''], label = 0, prediction = 0, match = True\<rparr>]
       \<lparr>num_processes = 2, process_index = 0, distributed_type = MULTI_GPU\<rparr>
       [[\<lparr>problem = ''p'', steps = [''a'', ''bx''], label = 1, prediction = 1, match = True\<rparr>,
         \<lparr>problem = ''r'', steps = [''ex'', ''f''], label = 0, prediction = 0, match = True\<rparr>],
        [\<lparr>problem = ''q'', steps = [''d''], label = - 1, prediction = - 1, match = True\<rparr>,
         \<lparr>problem = ''s'', steps = [''g''], label = 0, prediction = - 1, match = False\<rparr>]]
       = Some merged
   \<and> length merged = 4
   \<and> mset (map original merged) =
       mset [\<lparr>problem = ''p'', steps = [''a'', ''bx''], label = 1\<rparr>,
             \<lparr>problem = ''q'', steps = [''d''], label = - 1\<rparr>,
             \<lparr>problem = ''r'', steps = [''ex'', ''f''], label = 0\<rparr>,
             \<lparr>problem = ''s'', steps = [''g''], label = 0\<rparr>]"
proof -
  let ?ds = "[\<lparr>problem = ''p'', steps = [''a'', ''bx''], label = 1\<rparr>,
              \<lparr>problem = ''q'', steps = [''d''], label = - 1\<rparr>,
              \<lparr>problem = ''r'', steps = [''ex'', ''f''], label = 0\<rparr>,
              \<lparr>problem = ''s'', steps = [''g''], label = 0\<rparr>]"
  let ?r0 = "[\<lparr>problem = ''p'', steps = [''a'', ''bx''], label = 1, prediction = 1, match = True\<rparr>,
              \<lparr>problem = ''r'', steps = [''ex'', ''f''], label = 0, prediction = 0, match = True\<rparr>]"
  let ?r1 = "[\<lparr>problem = ''q'', steps = [''d''], label = - 1, prediction = - 1, match = True\<rparr>,
              \<lparr>problem = ''s'', steps = [''g''], label = 0, prediction = - 1, match = False\<rparr>]"
  let ?res = "\<lambda>r :: nat. if r = 0 then ?r0 else ?r1"
  have w: "0 < (2 :: nat)" by simp
  have c: "(2 :: nat) = 1 \<or> (MULTI_GPU = MULTI_GPU \<and> 2 dvd length ?ds)" by simp
  have e0: "evaluate_local toy_model byte_tokenizer torch_distributed_sampler
      \<lparr>num_processes = 2, process_index = 0, distributed_type = MULTI_GPU\<rparr> ?ds = Inr ?r0"
    by code_simp
  have e1: "evaluate_local toy_model byte_tokenizer torch_distributed_sampler
      \<lparr>num_processes = 2, process_index = 1, distributed_type = MULTI_GPU\<rparr> ?ds = Inr ?r1"
    by code_simp
  have runs: "\<forall>r < 2. evaluate_local toy_model byte_tokenizer torch_distributed_sampler
      \<lparr>num_processes = 2, process_index = r, distributed_type = MULTI_GPU\<rparr> ?ds = Inr (?res r)"
  proof (intro allI impI)
    fix r :: nat assume "r < 2"
    then have "r = 0 \<or> r = 1" by arith
    then show "evaluate_local toy_model byte_tokenizer torch_distributed_sampler
      \<lparr>num_processes = 2, process_index = r, distributed_type = MULTI_GPU\<rparr> ?ds = Inr (?res r)"
      using e0 e1 by auto
  qed
  have m: "map ?res [0..<2] = [?r0, ?r1]"
    by (simp add: upt_rec)
  from gather_exactly_once [OF w c runs] obtain merged where
    g: "gather_objects (?res 0) \<lparr>num_processes = 2, process_index = 0, distributed_type = MULTI_GPU\<rparr>
         (map ?res [0..<2]) = Some merged"
    and len: "length merged = length ?ds"
    and ms: "mset (map original merged) = mset ?ds"
    by blast
  from g have "gather_objects ?r0 \<lparr>num_processes = 2, process_index = 0, distributed_type = MULTI_GPU\<rparr>
         [?r0, ?r1] = Some merged"
    by (simp only: m simp_thms if_True)
  with len ms show ?thesis by auto
qed

section \<open>Properties of the scoring iteration on the store\<close>

lemma deepcopy_items_fresh:
  assumes "deepcopy_items h memo batch = (h', copies)"
    and "\<forall>(a, a') \<in> set memo. n0 \<le> a' \<and> a' < length h"
    and "n0 \<le> length h"
  shows "length h \<le> length h' \<and> take (length h) h' = h \<and> length copies = length batch
       \<and> (\<forall>b \<in> set copies. n0 \<le> b \<and> b < length h')"
  using assms
proof (induction batch arbitrary: h memo h' copies)
  case Nil
  then show ?case by simp
next
  case (Cons a rest)
  show ?case
  proof (cases "map_of memo a")
    case (Some a')
    obtain h2 cs where rec: "deepcopy_items h memo rest = (h2, cs)"
      by (cases "deepcopy_items h memo rest")
    with Cons.prems(1) Some have eq: "h' = h2" "copies = a' # cs" by simp_all
    from Cons.IH [OF rec Cons.prems(2,3)]
    have ih: "length h \<le> length h2" "take (length h) h2 = h" "length cs = length rest"
      "\<forall>b \<in> set cs. n0 \<le> b \<and> b < length h2"
      by blast+
    have "(a, a') \<in> set memo" using Some by (rule map_of_SomeD)
    then have "n0 \<le> a' \<and> a' < length h" using Cons.prems(2) by auto
    then show ?thesis using ih eq by auto
  next
    case None
    let ?h1 = "h @ [h ! a]"
    let ?memo = "(a, length h) # memo"
    obtain h2 cs where rec: "deepcopy_items ?h1 ?memo rest = (h2, cs)"
      by (cases "deepcopy_items ?h1 ?memo rest")
    with Cons.prems(1) None have eq: "h' = h2" "copies = length h # cs"
      by (simp_all add: Let_def)
    have m: "\<forall>(a, a') \<in> set ?memo. n0 \<le> a' \<and> a' < length ?h1"
      using Cons.prems(2,3) by auto
    have n: "n0 \<le> length ?h1" using Cons.prems(3) by simp
    from Cons.IH [OF rec m n]
    have ih: "length ?h1 \<le> length h2" "take (length ?h1) h2 = ?h1" "length cs = length rest"
      "\<forall>b \<in> set cs. n0 \<le> b \<and> b < length h2"
      by blast+
    have "take (length h) h2 = take (length h) (take (length ?h1) h2)"
      by (simp add: min_def)
    also have "\<dots> = h" by (simp only: ih(2)) simp
    finally have "take (length h) h2 = h" .
    then show ?thesis using ih eq Cons.prems(3) by auto
  qed
qed

lemma deepcopy_fresh:
  assumes "deepcopy h batch = (h', copies)"
  shows "length h \<le> length h'" "\<forall>a < length h. h' ! a = h ! a"
    "length copies = length batch" "\<forall>b \<in> set copies. length h \<le> b \<and> b < length h'"
proof -
  have "\<forall>(a, a') \<in> set []. length h \<le> a' \<and> a' < length h" by simp
  from deepcopy_items_fresh [OF assms [unfolded deepcopy_def] this]
  have p: "length h \<le> length h'" "take (length h) h' = h" "length copies = length batch"
    "\<forall>b \<in> set copies. length h \<le> b \<and> b < length h'"
    by simp_all
  show "length h \<le> length h'" "length copies = length batch"
    "\<forall>b \<in> set copies. length h \<le> b \<and> b < length h'"
    by (rule p)+
  show "\<forall>a < length h. h' ! a = h ! a"
  proof (intro allI impI)
    fix a assume "a < length h"
    then have "take (length h) h' ! a = h' ! a" by simp
    then show "h' ! a = h ! a" by (simp add: p(2))
  qed
qed

lemma score_loop_store_frame:
  assumes "score_loop_store logits lbls nb i sids h = (h', r)"
    and "i + length sids \<le> length nb"
    and "\<forall>b \<in> set nb. n0 \<le> b"
  shows "length h' = length h \<and> (\<forall>a < n0. h' ! a = h ! a)"
  using assms
proof (induction sids arbitrary: i h)
  case Nil
  then show ?case by simp
next
  case (Cons sid sids)
  show ?case
  proof (cases "score_example logits i sid (lbls ! i)")
    case (Inl e)
    then show ?thesis using Cons.prems(1) by simp
  next
    case (Inr pm)
    obtain p m where pm: "pm = (p, m)" by (cases pm)
    let ?a = "nb ! i"
    let ?h1 = "h[?a := setitem (h ! ?a) ''prediction'' (PyInt p)]"
    let ?h2 = "?h1[?a := setitem (?h1 ! ?a) ''match'' (PyBool m)]"
    have rec: "score_loop_store logits lbls nb (Suc i) sids ?h2 = (h', r)"
      using Cons.prems(1) Inr pm by (simp add: Let_def)
    have "Suc i + length sids \<le> length nb" using Cons.prems(2) by simp
    from Cons.IH [OF rec this Cons.prems(3)]
    have ih: "length h' = length ?h2" "\<forall>a < n0. h' ! a = ?h2 ! a" by blast+
    have "i < length nb" using Cons.prems(2) by simp
    then have "n0 \<le> ?a" using Cons.prems(3) by simp
    then have "\<forall>a < n0. ?h2 ! a = h ! a" by simp
    then show ?thesis using ih by simp
  qed
qed

lemma deepcopy_items_distinct:
  assumes "distinct batch" "\<forall>a \<in> set batch. a < length h \<and> map_of memo a = None"
  shows "deepcopy_items h memo batch =
           (h @ map (\<lambda>a. h ! a) batch, [length h..<length h + length batch])"
  using assms
proof (induction batch arbitrary: h memo)
  case Nil
  then show ?case by simp
next
  case (Cons a rest)
  let ?h1 = "h @ [h ! a]"
  let ?memo = "(a, length h) # memo"
  have none: "map_of memo a = None" using Cons.prems(2) by simp
  have d: "distinct rest" and notin: "a \<notin> set rest" using Cons.prems(1) by simp_all
  have pre: "\<forall>r \<in> set rest. r < length ?h1 \<and> map_of ?memo r = None"
    using Cons.prems(2) notin by auto
  have same: "map (\<lambda>r. ?h1 ! r) rest = map (\<lambda>r. h ! r) rest"
    using Cons.prems(2) by (simp add: nth_append)
  have e1: "?h1 @ map (\<lambda>r. ?h1 ! r) rest = h @ map (\<lambda>r. h ! r) (a # rest)"
    by (simp only: same) simp
  have e2: "[length ?h1..<length ?h1 + length rest]
              = [Suc (length h)..<length h + length (a # rest)]"
    by simp
  have "deepcopy_items ?h1 ?memo rest =
          (?h1 @ map (\<lambda>r. ?h1 ! r) rest, [length ?h1..<length ?h1 + length rest])"
    by (rule Cons.IH [OF d pre])
  then have rec: "deepcopy_items ?h1 ?memo rest =
          (h @ map (\<lambda>r. h ! r) (a # rest), [Suc (length h)..<length h + length (a # rest)])"
    by (simp only: e1 e2)
  have "length h < length h + length (a # rest)" by simp
  then have e3: "length h # [Suc (length h)..<length h + length (a # rest)]
              = [length h..<length h + length (a # rest)]"
    by (rule upt_conv_Cons [symmetric])
  have "deepcopy_items h memo (a # rest) =
          (h @ map (\<lambda>r. h ! r) (a # rest),
           length h # [Suc (length h)..<length h + length (a # rest)])"
    by (simp only: deepcopy_items.simps none option.case Let_def rec prod.case)
  then show ?case by (simp only: e3)
qed

lemma score_loop_store_content:
  assumes "score_loop_store logits lbls nb i sids h = (h', Inr u)"
    and "i + length sids \<le> length nb"
    and "distinct nb"
    and "\<forall>b \<in> set nb. b < length h"
  shows "length h' = length h
       \<and> (\<forall>k < length sids. \<exists>p m.
            score_example logits (i + k) (sids ! k) (lbls ! (i + k)) = Inr (p, m)
          \<and> h' ! (nb ! (i + k)) =
              setitem (setitem (h ! (nb ! (i + k))) ''prediction'' (PyInt p)) ''match'' (PyBool m))
       \<and> (\<forall>a. (\<forall>k < length sids. a \<noteq> nb ! (i + k)) \<longrightarrow> h' ! a = h ! a)"
  using assms
proof (induction sids arbitrary: i h)
  case Nil
  then show ?case by simp
next
  case (Cons sid sids)
  obtain p m where pm: "score_example logits i sid (lbls ! i) = Inr (p, m)"
    using Cons.prems(1) by (cases "score_example logits i sid (lbls ! i)") auto
  let ?a = "nb ! i"
  let ?h1 = "h[?a := setitem (h ! ?a) ''prediction'' (PyInt p)]"
  let ?h2 = "?h1[?a := setitem (?h1 ! ?a) ''match'' (PyBool m)]"
  have rec: "score_loop_store logits lbls nb (Suc i) sids ?h2 = (h', Inr u)"
    using Cons.prems(1) pm by (simp add: Let_def)
  have bound: "Suc i + length sids \<le> length nb" using Cons.prems(2) by simp
  have valid: "\<forall>b \<in> set nb. b < length ?h2" using Cons.prems(4) by simp
  from Cons.IH [OF rec bound Cons.prems(3) valid]
  have len: "length h' = length ?h2"
    and ih: "\<forall>k < length sids. \<exists>p m.
            score_example logits (Suc i + k) (sids ! k) (lbls ! (Suc i + k)) = Inr (p, m)
          \<and> h' ! (nb ! (Suc i + k)) =
              setitem (setitem (?h2 ! (nb ! (Suc i + k))) ''prediction'' (PyInt p))
                ''match'' (PyBool m)"
    and fr: "\<forall>a. (\<forall>k < length sids. a \<noteq> nb ! (Suc i + k)) \<longrightarrow> h' ! a = ?h2 ! a"
    by blast+
  have i: "i < length nb" using Cons.prems(2) by simp
  have ai: "?a < length h" using Cons.prems(4) i by simp
  have later: "nb ! (Suc i + k) \<noteq> ?a" if "k < length sids" for k
  proof -
    have "Suc i + k < length nb" using that bound by simp
    then show ?thesis
      using Cons.prems(3) i by (simp add: nth_eq_iff_index_eq)
  qed
  have h2a: "?h2 ! ?a = setitem (setitem (h ! ?a) ''prediction'' (PyInt p)) ''match'' (PyBool m)"
    using ai by simp
  have first: "h' ! ?a = setitem (setitem (h ! ?a) ''prediction'' (PyInt p)) ''match'' (PyBool m)"
  proof -
    have "\<forall>k < length sids. ?a \<noteq> nb ! (Suc i + k)" using later by metis
    then have "h' ! ?a = ?h2 ! ?a" using fr by blast
    then show ?thesis by (simp only: h2a)
  qed
  have each: "\<exists>p m.
            score_example logits (i + k) ((sid # sids) ! k) (lbls ! (i + k)) = Inr (p, m)
          \<and> h' ! (nb ! (i + k)) =
              setitem (setitem (h ! (nb ! (i + k))) ''prediction'' (PyInt p)) ''match'' (PyBool m)"
    if k: "k < length (sid # sids)" for k
  proof (cases k)
    case 0
    then show ?thesis using pm first by auto
  next
    case (Suc j)
    then have j: "j < length sids" using k by simp
    from ih j obtain p' m' where
      a: "score_example logits (Suc i + j) (sids ! j) (lbls ! (Suc i + j)) = Inr (p', m')"
      and b: "h' ! (nb ! (Suc i + j)) =
              setitem (setitem (?h2 ! (nb ! (Suc i + j))) ''prediction'' (PyInt p'))
                ''match'' (PyBool m')"
      by blast
    have "?h2 ! (nb ! (Suc i + j)) = h ! (nb ! (Suc i + j))"
      using later [OF j] by simp
    with a b show ?thesis using Suc by auto
  qed
  have frame: "h' ! a = h ! a" if "\<forall>k < length (sid # sids). a \<noteq> nb ! (i + k)" for a
  proof -
    have "a \<noteq> ?a" using that by fastforce
    moreover have "\<forall>k < length sids. a \<noteq> nb ! (Suc i + k)"
      using that by fastforce
    ultimately show ?thesis using fr by simp
  qed
  show ?case using len each frame by simp
qed

lemma score_loop_complete:
  "\<forall>k < length sids. \<exists>p m.
     score_example logits (i + k) (sids ! k) (lbls ! (i + k)) = Inr (p, m) \<Longrightarrow>
   \<exists>rs. score_loop logits lbls items i sids = Inr rs"
proof (induction sids arbitrary: i)
  case Nil
  then show ?case by simp
next
  case (Cons sid sids)
  from Cons.prems obtain p m where pm: "score_example logits i sid (lbls ! i) = Inr (p, m)"
    by fastforce
  have "\<forall>k < length sids. \<exists>p m.
     score_example logits (Suc i + k) (sids ! k) (lbls ! (Suc i + k)) = Inr (p, m)"
  proof (intro allI impI)
    fix k assume "k < length sids"
    then have "Suc k < length (sid # sids)" by simp
    with Cons.prems have "\<exists>p m. score_example logits (i + Suc k) ((sid # sids) ! Suc k)
        (lbls ! (i + Suc k)) = Inr (p, m)"
      by blast
    then show "\<exists>p m. score_example logits (Suc i + k) (sids ! k) (lbls ! (Suc i + k)) = Inr (p, m)"
      by simp
  qed
  from Cons.IH [OF this] obtain rs where "score_loop logits lbls items (Suc i) sids = Inr rs"
    by blast
  then show ?case using pm by (simp add: Let_def)
qed

lemma score_batch_store_cases:
  assumes "\<forall>a \<in> set raw_batch. a < length h"
    and "score_batch_store model tok sep h raw_batch = (h', r)"
  shows "length h \<le> length h' \<and> (\<forall>a < length h. h' ! a = h ! a)"
    and "r = Inr new_batch \<Longrightarrow>
           length new_batch = length raw_batch
         \<and> (\<forall>b \<in> set new_batch. length h \<le> b \<and> b < length h')"
    and "r = Inr new_batch \<Longrightarrow> distinct raw_batch \<Longrightarrow>
           \<exists>items rs. collect (map (\<lambda>a. read_example (h ! a)) raw_batch) = Inr items
             \<and> score_batch model tok sep items = Inr rs
             \<and> (\<forall>i < length raw_batch.
                   h' ! (new_batch ! i) =
                     setitem (setitem (h ! (raw_batch ! i)) ''prediction'' (PyInt (prediction (rs ! i))))
                       ''match'' (PyBool (match (rs ! i))))"
proof -
  obtain h1 nb where dc: "deepcopy h raw_batch = (h1, nb)"
    by (cases "deepcopy h raw_batch")
  note fresh = deepcopy_fresh [OF dc]
  have reads: "map (\<lambda>a. read_example (h1 ! a)) raw_batch = map (\<lambda>a. read_example (h ! a)) raw_batch"
    using assms(1) fresh(2) by simp
  let ?reads = "collect (map (\<lambda>a. read_example (h ! a)) raw_batch)"
  have unfold: "score_batch_store model tok sep h raw_batch =
      (case ?reads of
           Inl e \<Rightarrow> (h1, Inl e)
         | Inr items \<Rightarrow>
             (case collate_fn items tok sep of
                Inl e \<Rightarrow> (h1, Inl e)
              | Inr batch \<Rightarrow>
                  (let logits = model (input_ids batch);
                       (h2, r) = score_loop_store logits (labels batch) nb 0 (score_ids batch) h1
                   in case r of Inl e \<Rightarrow> (h2, Inl e) | Inr _ \<Rightarrow> (h2, Inr nb))))"
    by (simp add: score_batch_store_def dc reads)
  have main: "(length h \<le> length h' \<and> (\<forall>a < length h. h' ! a = h ! a))
    \<and> (r = Inr new_batch \<longrightarrow>
           length new_batch = length raw_batch
         \<and> (\<forall>b \<in> set new_batch. length h \<le> b \<and> b < length h'))
    \<and> (r = Inr new_batch \<longrightarrow> distinct raw_batch \<longrightarrow>
           (\<exists>items rs. ?reads = Inr items
             \<and> score_batch model tok sep items = Inr rs
             \<and> (\<forall>i < length raw_batch.
                   h' ! (new_batch ! i) =
                     setitem (setitem (h ! (raw_batch ! i)) ''prediction'' (PyInt (prediction (rs ! i))))
                       ''match'' (PyBool (match (rs ! i))))))"
  proof (cases ?reads)
    case (Inl e)
    then have "h' = h1" "r = Inl e" using assms(2) unfold by simp_all
    then show ?thesis using fresh by simp
  next
    case items: (Inr items)
    have len_items: "length items = length raw_batch"
      using collect_Inr [OF items] by simp
    show ?thesis
    proof (cases "collate_fn items tok sep")
      case (Inl e)
      then have "h' = h1" "r = Inl e" using assms(2) unfold items by simp_all
      then show ?thesis using fresh by simp
    next
      case batch: (Inr batch)
      let ?logits = "model (input_ids batch)"
      obtain h2 r2 where loop:
        "score_loop_store ?logits (labels batch) nb 0 (score_ids batch) h1 = (h2, r2)"
        by (cases "score_loop_store ?logits (labels batch) nb 0 (score_ids batch) h1")
      have res: "(h', r) = (case r2 of Inl e \<Rightarrow> (h2, Inl e) | Inr _ \<Rightarrow> (h2, Inr nb))"
        using assms(2) unfold items batch loop by (simp add: Let_def)
      then have h': "h' = h2" by (cases r2) simp_all
      have sco: "score_ids batch = map (\<lambda>ex. snd (encode tok sep ex)) items"
        and lab: "labels batch = map label items"
        by (subst collate_fn_Inr(3) [OF batch], simp)+
      have bound: "0 + length (score_ids batch) \<le> length nb"
        using fresh(3) len_items by (simp add: sco)
      have ge: "\<forall>b \<in> set nb. length h \<le> b" using fresh(4) by blast
      from score_loop_store_frame [OF loop bound ge]
      have fr: "length h2 = length h1" "\<forall>a < length h. h2 ! a = h1 ! a" by blast+
      have frame: "length h \<le> length h' \<and> (\<forall>a < length h. h' ! a = h ! a)"
        using fr fresh(1,2) h' by simp
      have shape: "length new_batch = length raw_batch
         \<and> (\<forall>b \<in> set new_batch. length h \<le> b \<and> b < length h')" if "r = Inr new_batch"
      proof -
        from res that have "new_batch = nb" by (cases r2) simp_all
        then show ?thesis using fresh(3,4) fr(1) h' by simp
      qed
      have content: "\<exists>items rs. ?reads = Inr items
             \<and> score_batch model tok sep items = Inr rs
             \<and> (\<forall>i < length raw_batch.
                   h' ! (new_batch ! i) =
                     setitem (setitem (h ! (raw_batch ! i)) ''prediction'' (PyInt (prediction (rs ! i))))
                       ''match'' (PyBool (match (rs ! i))))"
        if r: "r = Inr new_batch" and dist: "distinct raw_batch"
      proof -
        from res r obtain u where r2: "r2 = Inr u" and nb: "new_batch = nb"
          by (cases r2) simp_all
        have pre: "\<forall>a \<in> set raw_batch. a < length h \<and> map_of [] a = None"
          using assms(1) by simp
        from deepcopy_items_distinct [OF dist pre] dc
        have h1: "h1 = h @ map (\<lambda>a. h ! a) raw_batch"
          and nbs: "nb = [length h..<length h + length raw_batch]"
          by (simp_all add: deepcopy_def)
        have dnb: "distinct nb" by (simp add: nbs)
        have vnb: "\<forall>b \<in> set nb. b < length h1" using fresh(4) by blast
        have copy: "h1 ! (nb ! i) = h ! (raw_batch ! i)" if "i < length raw_batch" for i
          using that by (simp add: h1 nbs nth_append)
        from score_loop_store_content [OF loop [unfolded r2] bound dnb vnb]
        have each: "\<forall>k < length (score_ids batch). \<exists>p m.
            score_example ?logits (0 + k) (score_ids batch ! k) (labels batch ! (0 + k)) = Inr (p, m)
          \<and> h2 ! (nb ! (0 + k)) =
              setitem (setitem (h1 ! (nb ! (0 + k))) ''prediction'' (PyInt p)) ''match'' (PyBool m)"
          by blast
        then have "\<forall>k < length (score_ids batch). \<exists>p m.
            score_example ?logits (0 + k) (score_ids batch ! k) (labels batch ! (0 + k)) = Inr (p, m)"
          by blast
        from score_loop_complete [OF this] obtain rs where
          rs: "score_loop ?logits (labels batch) items 0 (score_ids batch) = Inr rs"
          by blast
        then have sb: "score_batch model tok sep items = Inr rs"
          by (simp add: score_batch_def batch Let_def)
        have "h' ! (new_batch ! i) =
                     setitem (setitem (h ! (raw_batch ! i)) ''prediction'' (PyInt (prediction (rs ! i))))
                       ''match'' (PyBool (match (rs ! i)))" if i: "i < length raw_batch" for i
        proof -
          have ik: "i < length (score_ids batch)" using i len_items by (simp add: sco)
          from each ik obtain p m where
            se: "score_example ?logits i (score_ids batch ! i) (labels batch ! i) = Inr (p, m)"
            and st: "h2 ! (nb ! i) =
              setitem (setitem (h1 ! (nb ! i)) ''prediction'' (PyInt p)) ''match'' (PyBool m)"
            by fastforce
          from score_loop_Inr [OF rs] ik obtain p' m' where
            se': "score_example ?logits (0 + i) (score_ids batch ! i) (labels batch ! (0 + i)) = Inr (p', m')"
            and ri: "rs ! i = annotate (items ! (0 + i)) p' m'"
            by blast
          from se se' have "p' = p" "m' = m" by simp_all
          then have "prediction (rs ! i) = p" "match (rs ! i) = m"
            using ri by (simp_all add: annotate_def)
          then show ?thesis using st copy [OF i] h' nb by simp
        qed
        then show ?thesis using items sb by blast
      qed
      show ?thesis using frame shape content by blast
    qed
  qed
  from main show "length h \<le> length h' \<and> (\<forall>a < length h. h' ! a = h ! a)" by blast
  from main show "r = Inr new_batch \<Longrightarrow>
           length new_batch = length raw_batch
         \<and> (\<forall>b \<in> set new_batch. length h \<le> b \<and> b < length h')" by blast
  from main show "r = Inr new_batch \<Longrightarrow> distinct raw_batch \<Longrightarrow>
           \<exists>items rs. collect (map (\<lambda>a. read_example (h ! a)) raw_batch) = Inr items
             \<and> score_batch model tok sep items = Inr rs
             \<and> (\<forall>i < length raw_batch.
                   h' ! (new_batch ! i) =
                     setitem (setitem (h ! (raw_batch ! i)) ''prediction'' (PyInt (prediction (rs ! i))))
                       ''match'' (PyBool (match (rs ! i))))" by blast
qed

text \<open>
  C9.  The scoring iteration changes no object that existed before it, whether it returns
  or raises: in particular every item of the raw batch is, key by key, what it was.  When
  it returns, \<open>new_batch\<close> lists as many addresses as the raw batch, all of them allocated
  by the copy and hence different from every address of the raw batch; and for a raw batch
  of distinct items, the copy of item \<open>i\<close> is the original dictionary with \<open>prediction\<close> and
  \<open>match\<close> set to the values that the value-level reading computes.
\<close>

theorem raw_batch_unchanged:
  assumes "\<forall>a \<in> set raw_batch. a < length h"
  shows "length h \<le> length (fst (score_batch_store model tok sep h raw_batch))
    \<and> (\<forall>a < length h. fst (score_batch_store model tok sep h raw_batch) ! a = h ! a)
    \<and> (\<forall>a \<in> set raw_batch. fst (score_batch_store model tok sep h raw_batch) ! a = h ! a)
    \<and> (\<forall>new_batch. snd (score_batch_store model tok sep h raw_batch) = Inr new_batch \<longrightarrow>
          length new_batch = length raw_batch
        \<and> (\<forall>b \<in> set new_batch.
              length h \<le> b \<and> b < length (fst (score_batch_store model tok sep h raw_batch))
            \<and> b \<notin> set raw_batch)
        \<and> (distinct raw_batch \<longrightarrow>
             (\<exists>items rs. collect (map (\<lambda>a. read_example (h ! a)) raw_batch) = Inr items
               \<and> score_batch model tok sep items = Inr rs
               \<and> (\<forall>i < length raw_batch.
                     fst (score_batch_store model tok sep h raw_batch) ! (new_batch ! i) =
                       setitem (setitem (h ! (raw_batch ! i))
                                  ''prediction'' (PyInt (prediction (rs ! i))))
                         ''match'' (PyBool (match (rs ! i)))))))"
proof -
  obtain h' r where run: "score_batch_store model tok sep h raw_batch = (h', r)"
    by (cases "score_batch_store model tok sep h raw_batch")
  note c = score_batch_store_cases [OF assms run]
  have frame: "length h \<le> length h'" "\<forall>a < length h. h' ! a = h ! a"
    using c(1) by blast+
  have raw: "\<forall>a \<in> set raw_batch. h' ! a = h ! a"
    using frame(2) assms by blast
  have ok: "length new_batch = length raw_batch
        \<and> (\<forall>b \<in> set new_batch. length h \<le> b \<and> b < length h' \<and> b \<notin> set raw_batch)
        \<and> (distinct raw_batch \<longrightarrow>
             (\<exists>items rs. collect (map (\<lambda>a. read_example (h ! a)) raw_batch) = Inr items
               \<and> score_batch model tok sep items = Inr rs
               \<and> (\<forall>i < length raw_batch.
                     h' ! (new_batch ! i) =
                       setitem (setitem (h ! (raw_batch ! i))
                                  ''prediction'' (PyInt (prediction (rs ! i))))
                         ''match'' (PyBool (match (rs ! i))))))"
    if r: "r = Inr new_batch" for new_batch
  proof -
    from c(2) [OF r] have s: "length new_batch = length raw_batch"
      "\<forall>b \<in> set new_batch. length h \<le> b \<and> b < length h'"
      by blast+
    have "\<forall>b \<in> set new_batch. b \<notin> set raw_batch"
      using s(2) assms by fastforce
    then show ?thesis using s c(3) [OF r] by blast
  qed
  show ?thesis
    unfolding run fst_conv snd_conv using frame raw ok by blast
qed

theorem raw_batch_unchanged_witness:
  "snd (score_batch_store toy_model byte_tokenizer newline
      [[(''problem'', PyStr ''p''), (''steps'', PyStrList [''a'', ''bx'']), (''label'', PyInt 1)],
       [(''problem'', PyStr ''q''), (''steps'', PyStrList [''d'']), (''label'', PyInt (- 1))]]
      [0, 1]) = Inr [2, 3]
 \<and> fst (score_batch_store toy_model byte_tokenizer newline
      [[(''problem'', PyStr ''p''), (''steps'', PyStrList [''a'', ''bx'']), (''label'', PyInt 1)],
       [(''problem'', PyStr ''q''), (''steps'', PyStrList [''d'']), (''label'', PyInt (- 1))]]
      [0, 1])
   = [[(''problem'', PyStr ''p''), (''steps'', PyStrList [''a'', ''bx'']), (''label'', PyInt 1)],
      [(''problem'', PyStr ''q''), (''steps'', PyStrList [''d'']), (''label'', PyInt (- 1))],
      [(''problem'', PyStr ''p''), (''steps'', PyStrList [''a'', ''bx'']), (''label'', PyInt 1),
       (''prediction'', PyInt 1), (''match'', PyBool True)],
      [(''problem'', PyStr ''q''), (''steps'', PyStrList [''d'']), (''label'', PyInt (- 1)),
       (''prediction'', PyInt (- 1)), (''match'', PyBool True)]]
 \<and> fst (score_batch_store toy_model byte_tokenizer newline
      [[(''problem'', PyStr ''p''), (''steps'', PyStrList [''a'', ''bx'']), (''label'', PyInt 1)],
       [(''problem'', PyStr ''q''), (''steps'', PyStrList [''d'']), (''label'', PyInt (- 1))]]
      [0, 1]) ! 0
   = [(''problem'', PyStr ''p''), (''steps'', PyStrList [''a'', ''bx'']), (''label'', PyInt 1)]"
proof -
  let ?h = "[[(''problem'', PyStr ''p''), (''steps'', PyStrList [''a'', ''bx'']), (''label'', PyInt 1)],
       [(''problem'', PyStr ''q''), (''steps'', PyStrList [''d'']), (''label'', PyInt (- 1))]]"
  have valid: "\<forall>a \<in> set [0, 1 :: nat]. a < length ?h" by simp
  have run: "score_batch_store toy_model byte_tokenizer newline ?h [0, 1] =
    ([[(''problem'', PyStr ''p''), (''steps'', PyStrList [''a'', ''bx'']), (''label'', PyInt 1)],
      [(''problem'', PyStr ''q''), (''steps'', PyStrList [''d'']), (''label'', PyInt (- 1))],
      [(''problem'', PyStr ''p''), (''steps'', PyStrList [''a'', ''bx'']), (''label'', PyInt 1),
       (''prediction'', PyInt 1), (''match'', PyBool True)],
      [(''problem'', PyStr ''q''), (''steps'', PyStrList [''d'']), (''label'', PyInt (- 1)),
       (''prediction'', PyInt (- 1)), (''match'', PyBool True)]], Inr [2, 3])"
    by code_simp
  from raw_batch_unchanged [OF valid, of toy_model byte_tokenizer newline]
  have "\<forall>a < length ?h. fst (score_batch_store toy_model byte_tokenizer newline ?h [0, 1]) ! a = ?h ! a"
    by blast
  then have "fst (score_batch_store toy_model byte_tokenizer newline ?h [0, 1]) ! 0 = ?h ! 0"
    by simp
  then show ?thesis using run by simp
qed

end
